theory Spec2Isabelle
  imports Complex_Main
begin

section \<open>Banners and Python values\<close>

text \<open>
  A banner is a dictionary. The fields the two commands look at are kept as record
  fields; \<open>None\<close> in an optional field says that the key is absent from the dictionary.
  Field values are the Python values that occur there: \<open>None\<close>, an integer or a string.
\<close>

datatype pyval = PNone | PInt int | PStr string

record banner =
  ip :: "pyval option"
  ipv6 :: "pyval option"
  ip_str :: "string option"
  port :: "pyval option"
  timestamp :: string
  payload :: string

text \<open>Python's truth value of a field value, as used by \<open>if not ip\<close>.\<close>

fun truthy :: "pyval \<Rightarrow> bool" where
  "truthy PNone = False"
| "truthy (PInt n) = (n \<noteq> 0)"
| "truthy (PStr s) = (s \<noteq> [])"

text \<open>
  The exceptions that the two commands tell apart. \<open>OtherException\<close> stands for any
  exception class that no handler names.
\<close>

datatype exn =
    RequestsTimeout
  | SocketTimeout
  | KeyboardInterrupt
  | APIError string
  | KeyError string
  | AttributeError
  | OtherException string

text \<open>The message of a \<open>click.ClickException\<close>: a text, or the \<open>repr\<close> of an exception.\<close>

datatype message = Text string | Repr exn

section \<open>The stream command\<close>

type_synonym day = string

text \<open>
  \<open>open_streaming_file\<close> returns a gzip handle opened in append mode on
  \<open>directory/day.json.gz\<close> with a compression level (9 when the caller gives none).
\<close>

datatype sink = Sink string day int

fun sink_level :: "sink \<Rightarrow> int" where
  "sink_level (Sink directory d lvl) = lvl"

fun sink_path :: "sink \<Rightarrow> string" where
  "sink_path (Sink directory d lvl) = directory @ ''/'' @ d @ ''.json.gz''"

definition default_compresslevel :: int where
  "default_compresslevel = 9"

definition open_streaming_file :: "string \<Rightarrow> day \<Rightarrow> int \<Rightarrow> sink" where
  "open_streaming_file directory ts compresslevel = Sink directory ts compresslevel"

text \<open>What the command does to the outside world, in the order in which it does it.\<close>

datatype effect =
    CreateStream
  | Open sink
  | Close sink
  | Write sink banner
  | Echo banner
  | Sleep real

record stream_opts =
  limit :: int
  datadir :: "string option"
  quiet :: bool
  compresslevel :: int

text \<open>\<open>if datadir:\<close> holds for a string that is neither \<open>None\<close> nor empty.\<close>

definition datadir_set :: "stream_opts \<Rightarrow> bool" where
  "datadir_set opts = (case datadir opts of None \<Rightarrow> False | Some d \<Rightarrow> d \<noteq> [])"

definition datadir_name :: "stream_opts \<Rightarrow> string" where
  "datadir_name opts = (case datadir opts of None \<Rightarrow> ''None'' | Some d \<Rightarrow> d)"

record stream_state =
  counter :: int
  quit :: bool
  last_time :: day
  fout :: "sink option"
  effects :: "effect list"

definition emit :: "effect \<Rightarrow> stream_state \<Rightarrow> stream_state" where
  "emit e st = st\<lparr>effects := effects st @ [e]\<rparr>"

text \<open>
  One step of the push channel, as the \<open>for\<close> statement sees it: the channel yields a
  banner, raises, or is exhausted. \<open>Item b d\<close> carries the value \<open>d\<close> that \<open>timestr()\<close>
  returns while the banner \<open>b\<close> is processed (the UTC date of the wall clock then).
\<close>

datatype stream_event = Item banner day | Fails exn | Ends

text \<open>How control leaves the body of the \<open>for\<close> loop.\<close>

datatype 's flow = Next 's | Break 's | Throw exn 's

text \<open>Lines 1244 to 1249: the count against \<open>limit\<close>, before anything is written.\<close>

definition count_banner :: "stream_opts \<Rightarrow> stream_state \<Rightarrow> stream_state flow" where
  "count_banner opts st =
     (if limit opts > 0 then
        (let st1 = st\<lparr>counter := counter st + 1\<rparr> in
         if counter st1 > limit opts then Break (st1\<lparr>quit := True\<rparr>) else Next st1)
      else Next st)"

text \<open>
  Lines 1252 to 1258: rotation and the write. \<open>fout.close()\<close> on \<open>None\<close> would raise
  \<open>AttributeError\<close>, after \<open>last_time\<close> has been assigned.
\<close>

definition write_data :: "stream_opts \<Rightarrow> stream_state \<Rightarrow> banner \<Rightarrow> day \<Rightarrow> stream_state flow" where
  "write_data opts st b cur_time =
     (if datadir_set opts then
        (if cur_time \<noteq> last_time st then
           (let st1 = st\<lparr>last_time := cur_time\<rparr> in
            case fout st1 of
              None \<Rightarrow> Throw AttributeError st1
            | Some old \<Rightarrow>
                (let st2 = emit (Close old) st1;
                     new = open_streaming_file (datadir_name opts) (last_time st2) default_compresslevel;
                     st3 = emit (Open new) (st2\<lparr>fout := Some new\<rparr>)
                 in Next (emit (Write new b) st3)))
         else
           (case fout st of
              None \<Rightarrow> Throw AttributeError st
            | Some h \<Rightarrow> Next (emit (Write h b) st)))
      else Next st)"

text \<open>Lines 1261 to 1287: the row of fields is printed unless \<open>--quiet\<close>.\<close>

definition print_banner :: "stream_opts \<Rightarrow> stream_state \<Rightarrow> banner \<Rightarrow> stream_state" where
  "print_banner opts st b = (if \<not> quiet opts then emit (Echo b) st else st)"

definition for_body :: "stream_opts \<Rightarrow> stream_state \<Rightarrow> banner \<Rightarrow> day \<Rightarrow> stream_state flow" where
  "for_body opts st b cur_time =
     (case count_banner opts st of
        Break st1 \<Rightarrow> Break st1
      | Throw e st1 \<Rightarrow> Throw e st1
      | Next st1 \<Rightarrow>
          (case write_data opts st1 b cur_time of
             Break st2 \<Rightarrow> Break st2
           | Throw e st2 \<Rightarrow> Throw e st2
           | Next st2 \<Rightarrow> Next (print_banner opts st2 b)))"

text \<open>
  How a run stands after the events seen so far: still in the loop, left through
  \<open>quit\<close>, aborted by a \<open>ClickException\<close>, or spinning for ever on an exhausted
  generator (the \<open>for\<close> loop ends without an exception, \<open>quit\<close> is still false, and
  every further \<open>for\<close> over the same generator ends at once).
\<close>

datatype outcome = Running | Stopped | ClickException message | Spinning

text \<open>Lines 1288 to 1299: the handlers, in the order of the source.\<close>

fun except_clause :: "stream_state \<Rightarrow> exn \<Rightarrow> outcome \<times> stream_state" where
  "except_clause st RequestsTimeout = (ClickException (Text ''Connection timed out''), st)"
| "except_clause st KeyboardInterrupt = (Stopped, st\<lparr>quit := True\<rparr>)"
| "except_clause st (APIError v) = (ClickException (Text v), st)"
| "except_clause st e = (Running, emit CreateStream (emit (Sleep 1) st))"

fun stream_loop :: "stream_opts \<Rightarrow> stream_state \<Rightarrow> stream_event list \<Rightarrow> outcome \<times> stream_state" where
  "stream_loop opts st [] = (Running, st)"
| "stream_loop opts st (Item b d # evs) =
     (case for_body opts st b d of
        Next st1 \<Rightarrow> stream_loop opts st1 evs
      | Break st1 \<Rightarrow> (Stopped, st1)
      | Throw e st1 \<Rightarrow>
          (case except_clause st1 e of
             (Running, st2) \<Rightarrow> stream_loop opts st2 evs
           | r \<Rightarrow> r))"
| "stream_loop opts st (Fails e # evs) =
     (case except_clause st e of
        (Running, st1) \<Rightarrow> stream_loop opts st1 evs
      | r \<Rightarrow> r)"
| "stream_loop opts st (Ends # evs) = (Spinning, st)"

text \<open>
  Lines 1230 to 1238: the first stream is created, \<open>last_time\<close> is read from the clock
  (\<open>start\<close> is what \<open>timestr()\<close> returns then) and, with a data directory, the first
  file is opened with the configured compression level.
\<close>

definition stream_init :: "stream_opts \<Rightarrow> day \<Rightarrow> stream_state" where
  "stream_init opts start =
     (let st = \<lparr>counter = 0, quit = False, last_time = start, fout = None,
                effects = [CreateStream]\<rparr>
      in if datadir_set opts then
           (let h = open_streaming_file (datadir_name opts) (last_time st) (compresslevel opts)
            in emit (Open h) (st\<lparr>fout := Some h\<rparr>))
         else st)"

definition stream_cmd :: "stream_opts \<Rightarrow> day \<Rightarrow> stream_event list \<Rightarrow> outcome \<times> stream_state" where
  "stream_cmd opts start evs = stream_loop opts (stream_init opts start) evs"

text \<open>Readings of the effect trace.\<close>

fun opened :: "effect list \<Rightarrow> sink list" where
  "opened [] = []"
| "opened (Open s # es) = s # opened es"
| "opened (e # es) = opened es"

fun written :: "effect list \<Rightarrow> (sink \<times> banner) list" where
  "written [] = []"
| "written (Write s b # es) = (s, b) # written es"
| "written (e # es) = written es"

fun file_effects :: "effect list \<Rightarrow> effect list" where
  "file_effects [] = []"
| "file_effects (Open s # es) = Open s # file_effects es"
| "file_effects (Close s # es) = Close s # file_effects es"
| "file_effects (Write s b # es) = Write s b # file_effects es"
| "file_effects (e # es) = file_effects es"

fun items :: "(banner \<times> day) list \<Rightarrow> stream_event list" where
  "items [] = []"
| "items ((b, d) # bds) = Item b d # items bds"

fun flow_state :: "'s flow \<Rightarrow> 's" where
  "flow_state (Next s) = s"
| "flow_state (Break s) = s"
| "flow_state (Throw e s) = s"

text \<open>
  \<open>rotated_for dir evs ws s\<close>: the handle \<open>s\<close> is the one a rotation opens for the day of
  some banner of \<open>evs\<close>, and that banner is among the writes \<open>ws\<close> to \<open>s\<close>.
\<close>

definition rotated_for :: "string \<Rightarrow> stream_event list \<Rightarrow> (sink \<times> banner) list \<Rightarrow> sink \<Rightarrow> bool" where
  "rotated_for dir evs ws s =
     list_ex (\<lambda>ev. case ev of Item b d \<Rightarrow> s = Sink dir d 9 \<and> (s, b) \<in> set ws | _ \<Rightarrow> False) evs"





section \<open>The scan submit command\<close>

text \<open>An API call returns a value, or raises \<open>shodan.APIError\<close> with the given \<open>value\<close>.\<close>

datatype 'a api = Ok 'a | Rejected string

text \<open>
  The calls the command makes, in order: the API methods, \<open>time.sleep\<close> and
  \<open>helpers.open_file\<close>. The spinner thread is left out.
\<close>

datatype call =
    ApiScan
  | ApiCreateAlert
  | OpenOutput string
  | ApiStreamAlert string int
  | ApiScanStatus string
  | TimeSleep real
  | ApiDeleteAlert string

text \<open>
  The dictionary that \<open>api.scan\<close> and \<open>api.scan_status\<close> return, as far as the command
  reads it: the keys \<open>id\<close> and \<open>status\<close>, \<open>None\<close> where the key is absent.
\<close>

record scan_dict =
  dict_id :: "string option"
  dict_status :: "string option"

text \<open>
  What the command is answered. \<open>clock k\<close> is the value of \<open>time.time() - scan_start\<close>
  the \<open>k\<close>-th time the loop computes it, \<open>status_reply k\<close> the answer to the \<open>k\<close>-th call of
  \<open>api.scan_status\<close>. \<open>scan_reply\<close> is the \<open>id\<close> of the dictionary that \<open>api.scan\<close> returns.
  \<open>helpers.get_ip\<close> is not part of the source tree: it is the parameter \<open>get_ip\<close>, with
  \<open>None\<close> where it raises \<open>KeyError\<close>. \<open>open_raises\<close> and \<open>report_raises\<close> say whether
  \<open>helpers.open_file\<close> and the printing of the result table (lines 880 to 961) raise.
\<close>

record world =
  scan_reply :: "string api"
  alert_reply :: "string api"
  open_raises :: "exn option"
  clock :: "nat \<Rightarrow> real"
  status_reply :: "nat \<Rightarrow> scan_dict api"
  get_ip :: "banner \<Rightarrow> string option"
  report_raises :: "exn option"
  delete_reply :: "unit api"

record session =
  wait :: int
  scan_id :: string
  alert_id :: string

text \<open>
  The variables of the monitoring loop. \<open>scan\<close> is rebound to every answer of
  \<open>api.scan_status\<close>, and the next poll asks for the \<open>id\<close> of that answer.
\<close>

record monitor =
  scan :: scan_dict
  hosts :: "string \<Rightarrow> (pyval \<Rightarrow> banner option) option"
  cache :: "string \<Rightarrow> bool option"
  is_done :: bool
  reads :: nat
  polls :: nat
  calls :: "call list"

definition called :: "call \<Rightarrow> monitor \<Rightarrow> monitor" where
  "called c st = st\<lparr>calls := calls st @ [c]\<rparr>"

definition lookup_host :: "monitor \<Rightarrow> string \<Rightarrow> pyval \<Rightarrow> banner option" where
  "lookup_host st h p = (case hosts st h of None \<Rightarrow> None | Some m \<Rightarrow> m p)"

text \<open>\<open>'{}'.format(v)\<close>: the decimal digits of an integer, a string as it is.\<close>

definition digit_char :: "nat \<Rightarrow> char" where
  "digit_char n = ''0123456789'' ! n"

fun str_nat :: "nat \<Rightarrow> string" where
  "str_nat n = (if n < 10 then [digit_char n] else str_nat (n div 10) @ [digit_char (n mod 10)])"

declare str_nat.simps [simp del]

definition str_int :: "int \<Rightarrow> string" where
  "str_int i = (if i < 0 then CHR ''-'' # str_nat (nat (- i)) else str_nat (nat i))"

fun format_val :: "pyval \<Rightarrow> string" where
  "format_val PNone = ''None''"
| "format_val (PInt i) = str_int i"
| "format_val (PStr s) = s"

text \<open>Line 825: \<open>banner.get('ip', banner.get('ipv6', None))\<close>.\<close>

definition banner_ip :: "banner \<Rightarrow> pyval" where
  "banner_ip b =
     (case ip b of
        Some v \<Rightarrow> v
      | None \<Rightarrow> (case ipv6 b of Some v \<Rightarrow> v | None \<Rightarrow> PNone))"

text \<open>Line 830: \<open>'{}:{}'.format(ip, banner['port'])\<close>.\<close>

definition cache_key_of :: "pyval \<Rightarrow> pyval \<Rightarrow> string" where
  "cache_key_of ipv p = format_val ipv @ '':'' @ format_val p"

text \<open>
  Lines 830 to 833, for a banner whose \<open>ip\<close> is truthy. \<open>hosts\<close> is a
  \<open>defaultdict(dict)\<close>: a host that is not there yet starts with the empty dictionary.
\<close>

definition group_banner :: "world \<Rightarrow> monitor \<Rightarrow> banner \<Rightarrow> monitor flow" where
  "group_banner wld st b =
     (case port b of
        None \<Rightarrow> Throw (KeyError ''port'') st
      | Some p \<Rightarrow>
          (let cache_key = cache_key_of (banner_ip b) p in
           if cache st cache_key = None then
             (case get_ip wld b of
                None \<Rightarrow> Throw (KeyError ''ip_str'') st
              | Some h \<Rightarrow>
                  (let ports = (case hosts st h of None \<Rightarrow> Map.empty | Some m \<Rightarrow> m) in
                   Next (st\<lparr>hosts := (hosts st)(h \<mapsto> ports(p \<mapsto> b)),
                             cache := (cache st)(cache_key \<mapsto> True)\<rparr>)))
           else Next st))"

text \<open>Lines 836 to 844: the status poll once 60 seconds have passed since \<open>scan_start\<close>.\<close>

definition check_scan :: "world \<Rightarrow> monitor \<Rightarrow> monitor flow" where
  "check_scan wld st =
     (let t = clock wld (reads st);
          st1 = st\<lparr>reads := Suc (reads st)\<rparr>
      in if t \<ge> 60 then
           (case dict_id (scan st1) of
              None \<Rightarrow> Throw (KeyError ''id'') st1
            | Some i \<Rightarrow>
                (let st2 = called (ApiScanStatus i) (st1\<lparr>polls := Suc (polls st1)\<rparr>) in
                 case status_reply wld (polls st1) of
                   Rejected v \<Rightarrow> Throw (APIError v) st2
                 | Ok d \<Rightarrow>
                     (let st3 = st2\<lparr>scan := d\<rparr> in
                      case dict_status d of
                        None \<Rightarrow> Throw (KeyError ''status'') st3
                      | Some status \<Rightarrow>
                          if status = ''DONE'' then Break (st3\<lparr>is_done := True\<rparr>)
                          else Next st3)))
         else Next st1)"

text \<open>Lines 825 to 844: the body of the \<open>for\<close> loop; \<open>continue\<close> goes on to the next banner.\<close>

definition on_banner :: "world \<Rightarrow> monitor \<Rightarrow> banner \<Rightarrow> monitor flow" where
  "on_banner wld st b =
     (if \<not> truthy (banner_ip b) then Next st
      else
        (case group_banner wld st b of
           Next st1 \<Rightarrow> check_scan wld st1
         | Break st1 \<Rightarrow> Break st1
         | Throw e st1 \<Rightarrow> Throw e st1))"

text \<open>
  How the \<open>while\<close> loop stands: still listening, left with \<open>done\<close>, left by an
  exception that no inner handler catches, or left by the \<open>ClickException\<close> of the last
  inner handler.
\<close>

datatype progress = Listening | Finished | Escaped exn | Clicked message

text \<open>
  Lines 846 to 863: the handler of \<open>shodan.APIError\<close>. What its own poll raises leaves
  the loop: no handler of the same \<open>try\<close> catches it.
\<close>

definition on_api_error :: "world \<Rightarrow> session \<Rightarrow> monitor \<Rightarrow> progress \<times> monitor" where
  "on_api_error wld ses st =
     (let t = clock wld (reads st);
          st1 = st\<lparr>reads := Suc (reads st)\<rparr>
      in if t < real_of_int (wait ses) then (Listening, called (TimeSleep (1 / 2)) st1)
         else if is_done st1 then (Finished, st1)
         else
           (case dict_id (scan st1) of
              None \<Rightarrow> (Escaped (KeyError ''id''), st1)
            | Some i \<Rightarrow>
                (let st2 = called (ApiScanStatus i) (st1\<lparr>polls := Suc (polls st1)\<rparr>) in
                 case status_reply wld (polls st1) of
                   Rejected v \<Rightarrow> (Escaped (APIError v), st2)
                 | Ok d \<Rightarrow>
                     (let st3 = st2\<lparr>scan := d\<rparr> in
                      case dict_status d of
                        None \<Rightarrow> (Escaped (KeyError ''status''), st3)
                      | Some status \<Rightarrow>
                          if status = ''DONE'' then (Finished, st3\<lparr>is_done := True\<rparr>)
                          else (Listening, st3)))))"

text \<open>Lines 864 to 871: the handler of \<open>socket.timeout\<close>.\<close>

definition on_socket_timeout :: "world \<Rightarrow> session \<Rightarrow> monitor \<Rightarrow> progress \<times> monitor" where
  "on_socket_timeout wld ses st =
     (let t = clock wld (reads st);
          st1 = st\<lparr>reads := Suc (reads st)\<rparr>
      in if t < real_of_int (wait ses) then (Listening, st1)
         else (Finished, st1\<lparr>is_done := True\<rparr>))"

text \<open>
  The handlers in the order of the source. \<open>KeyboardInterrupt\<close> is no \<open>Exception\<close> and
  passes all three; every other exception ends in the \<open>ClickException\<close> of line 875.
\<close>

fun handler :: "world \<Rightarrow> session \<Rightarrow> monitor \<Rightarrow> exn \<Rightarrow> progress \<times> monitor" where
  "handler wld ses st (APIError v) = on_api_error wld ses st"
| "handler wld ses st SocketTimeout = on_socket_timeout wld ses st"
| "handler wld ses st KeyboardInterrupt = (Escaped KeyboardInterrupt, st)"
| "handler wld ses st e = (Clicked (Repr e), st)"

text \<open>
  One step of the alert's push channel. Every pass of the \<open>while\<close> loop calls
  \<open>api.stream.alert\<close> again, also after a \<open>for\<close> loop that ended without an exception.
\<close>

datatype chan_event = Recv banner | ChanFails exn | ChanEnds

definition reopen :: "session \<Rightarrow> monitor \<Rightarrow> monitor" where
  "reopen ses st = called (ApiStreamAlert (alert_id ses) (wait ses)) st"

fun monitor_loop :: "world \<Rightarrow> session \<Rightarrow> monitor \<Rightarrow> chan_event list \<Rightarrow> progress \<times> monitor" where
  "monitor_loop wld ses st [] = (Listening, st)"
| "monitor_loop wld ses st (Recv b # evs) =
     (case on_banner wld st b of
        Next st1 \<Rightarrow> monitor_loop wld ses st1 evs
      | Break st1 \<Rightarrow> (Finished, st1)
      | Throw e st1 \<Rightarrow>
          (case handler wld ses st1 e of
             (Listening, st2) \<Rightarrow> monitor_loop wld ses (reopen ses st2) evs
           | r \<Rightarrow> r))"
| "monitor_loop wld ses st (ChanFails e # evs) =
     (case handler wld ses st e of
        (Listening, st1) \<Rightarrow> monitor_loop wld ses (reopen ses st1) evs
      | r \<Rightarrow> r)"
| "monitor_loop wld ses st (ChanEnds # evs) = monitor_loop wld ses (reopen ses st) evs"

text \<open>Lines 818 to 822, and the loop with its first \<open>api.stream.alert\<close> call.\<close>

definition first_scan :: "string \<Rightarrow> scan_dict" where
  "first_scan sid = \<lparr>dict_id = Some sid, dict_status = None\<rparr>"

definition no_scan :: scan_dict where
  "no_scan = \<lparr>dict_id = None, dict_status = None\<rparr>"

definition monitor_init :: "scan_dict \<Rightarrow> call list \<Rightarrow> monitor" where
  "monitor_init sc cs =
     \<lparr>scan = sc, hosts = Map.empty, cache = Map.empty, is_done = False, reads = 0, polls = 0,
      calls = cs\<rparr>"

definition monitor_session :: "world \<Rightarrow> session \<Rightarrow> call list \<Rightarrow> chan_event list \<Rightarrow> progress \<times> monitor" where
  "monitor_session wld ses cs evs =
     monitor_loop wld ses (reopen ses (monitor_init (first_scan (scan_id ses)) cs)) evs"

text \<open>
  Lines 804 to 810: the output file. A character of the file name stands for its code
  point, for names of code points below 256; \<open>str.strip()\<close> removes the white space of
  both ends, which among these code points is 9 to 13, 28 to 32, 133 and 160.
\<close>

definition is_space :: "char \<Rightarrow> bool" where
  "is_space c =
     (let n = (of_char c :: nat)
      in (9 \<le> n \<and> n \<le> 13) \<or> (28 \<le> n \<and> n \<le> 32) \<or> n = 133 \<or> n = 160)"

definition strip :: "string \<Rightarrow> string" where
  "strip s = rev (dropWhile is_space (rev (dropWhile is_space s)))"

definition endswith :: "string \<Rightarrow> string \<Rightarrow> bool" where
  "endswith s suf = (length suf \<le> length s \<and> drop (length s - length suf) s = suf)"

definition open_output :: "world \<Rightarrow> string \<Rightarrow> call list \<Rightarrow> exn option \<times> call list" where
  "open_output wld filename cs =
     (let f = strip filename in
      if f \<noteq> [] then
        (let f1 = (if \<not> endswith f ''.json.gz'' then f @ ''.json.gz'' else f)
         in (open_raises wld, cs @ [OpenOutput f1]))
      else (None, cs))"

text \<open>How the command ends; \<open>Pending\<close> while the monitoring loop is still listening.\<close>

datatype exit = Pending | Returned | ExitClick message | ExitUncaught exn

text \<open>Lines 962 and 963: the outer handler catches \<open>shodan.APIError\<close> only.\<close>

definition outer_except :: "exn \<Rightarrow> exit" where
  "outer_except e = (case e of APIError v \<Rightarrow> ExitClick (Text v) | _ \<Rightarrow> ExitUncaught e)"

text \<open>
  Lines 964 to 967: \<open>alert\<close> is \<open>None\<close> until \<open>api.create_alert\<close> has returned. An
  exception of \<open>api.delete_alert\<close> replaces the pending one.
\<close>

definition finally_clause :: "world \<Rightarrow> string option \<Rightarrow> exit \<times> monitor \<Rightarrow> exit \<times> monitor" where
  "finally_clause wld alert r =
     (case alert of
        None \<Rightarrow> r
      | Some aid \<Rightarrow>
          (let st = called (ApiDeleteAlert aid) (snd r) in
           case delete_reply wld of
             Rejected v \<Rightarrow> (ExitUncaught (APIError v), st)
           | Ok u \<Rightarrow> (fst r, st)))"

definition report :: "world \<Rightarrow> exit" where
  "report wld = (case report_raises wld of None \<Rightarrow> Returned | Some e \<Rightarrow> outer_except e)"

definition scan_submit :: "world \<Rightarrow> int \<Rightarrow> string \<Rightarrow> chan_event list \<Rightarrow> exit \<times> monitor" where
  "scan_submit wld wait_opt filename evs =
     (case scan_reply wld of
        Rejected v \<Rightarrow> finally_clause wld None (ExitClick (Text v), monitor_init no_scan [ApiScan])
      | Ok sid \<Rightarrow>
          if wait_opt \<le> 0 then
            finally_clause wld None (Returned, monitor_init (first_scan sid) [ApiScan])
          else
            (case alert_reply wld of
               Rejected v \<Rightarrow>
                 finally_clause wld None
                   (ExitClick (Text v), monitor_init (first_scan sid) [ApiScan, ApiCreateAlert])
             | Ok aid \<Rightarrow>
                 (let ses = \<lparr>wait = wait_opt, scan_id = sid, alert_id = aid\<rparr> in
                  case open_output wld filename [ApiScan, ApiCreateAlert] of
                    (Some e, cs) \<Rightarrow>
                      finally_clause wld (Some aid) (outer_except e, monitor_init (first_scan sid) cs)
                  | (None, cs) \<Rightarrow>
                      (case monitor_session wld ses cs evs of
                         (Listening, st) \<Rightarrow> (Pending, st)
                       | (Finished, st) \<Rightarrow> finally_clause wld (Some aid) (report wld, st)
                       | (Escaped e, st) \<Rightarrow> finally_clause wld (Some aid) (outer_except e, st)
                       | (Clicked m, st) \<Rightarrow> finally_clause wld (Some aid) (ExitClick m, st)))))"

text \<open>Readings of a session: the banners received, and the calls that delete an alert.\<close>

fun received :: "chan_event list \<Rightarrow> banner list" where
  "received [] = []"
| "received (Recv b # evs) = b # received evs"
| "received (e # evs) = received evs"

fun is_delete :: "call \<Rightarrow> bool" where
  "is_delete (ApiDeleteAlert aid) = True"
| "is_delete c = False"

text \<open>
  The side of the code. A banner is keyed when lines 825 to 832 pass for it; its key is the
  cache key of line 830. \<open>first_keyed\<close> is the first keyed banner of a list with a given
  key.
\<close>

definition keyed :: "world \<Rightarrow> banner \<Rightarrow> bool" where
  "keyed wld b = (truthy (banner_ip b) \<and> port b \<noteq> None \<and> get_ip wld b \<noteq> None)"

definition banner_key :: "banner \<Rightarrow> string" where
  "banner_key b = (case port b of None \<Rightarrow> [] | Some p \<Rightarrow> cache_key_of (banner_ip b) p)"

definition first_keyed :: "world \<Rightarrow> string \<Rightarrow> banner list \<Rightarrow> banner option" where
  "first_keyed wld k bs = find (\<lambda>b. keyed wld b \<and> banner_key b = k) bs"

text \<open>
  The table and the cache after the banners \<open>bs\<close>: the cache holds the keys seen, every
  entry of the table is the first banner of its key and sits at that banner's host and
  port, and the first banner of every key is in the table.
\<close>

definition table_inv :: "world \<Rightarrow> banner list \<Rightarrow> monitor \<Rightarrow> bool" where
  "table_inv wld bs st =
     ((\<forall>k. cache st k \<noteq> None \<longleftrightarrow> (\<exists>b\<in>set bs. keyed wld b \<and> banner_key b = k))
      \<and> (\<forall>h p b'. lookup_host st h p = Some b' \<longrightarrow>
            get_ip wld b' = Some h \<and> port b' = Some p \<and> first_keyed wld (banner_key b') bs = Some b')
      \<and> (\<forall>k b0. first_keyed wld k bs = Some b0 \<longrightarrow>
            (\<exists>h p. get_ip wld b0 = Some h \<and> port b0 = Some p \<and> lookup_host st h p = Some b0)))"

text \<open>Banners that \<open>get_ip\<close> and the port do not tell apart have one key.\<close>

definition consistent :: "world \<Rightarrow> banner set \<Rightarrow> bool" where
  "consistent wld B =
     (\<forall>b\<in>B. \<forall>b'\<in>B. keyed wld b \<and> keyed wld b' \<and> get_ip wld b = get_ip wld b'
        \<and> port b = port b' \<longrightarrow> banner_key b = banner_key b')"

text \<open>
  The side of the specification. The identity of a record is the pair of its \<open>ip\<close> (its
  \<open>ipv6\<close> when it has no \<open>ip\<close>) and its \<open>port\<close>; a record without address or without port
  has none. A banner is well formed when \<open>ip\<close> is a non-zero integer, \<open>ipv6\<close> a text with a
  colon and \<open>port\<close> an integer, each where present. \<open>first_seen\<close> is the first banner of a
  list that has a given identity and that \<open>get_ip\<close> can name.
\<close>

definition record_identity :: "banner \<Rightarrow> (pyval \<times> pyval) option" where
  "record_identity b =
     (case (case ip b of Some v \<Rightarrow> Some v | None \<Rightarrow> ipv6 b) of
        None \<Rightarrow> None
      | Some a \<Rightarrow> (case port b of None \<Rightarrow> None | Some p \<Rightarrow> Some (a, p)))"

fun is_ip :: "pyval \<Rightarrow> bool" where
  "is_ip (PInt n) = (n \<noteq> 0)"
| "is_ip v = False"

fun is_ipv6 :: "pyval \<Rightarrow> bool" where
  "is_ipv6 (PStr s) = (CHR '':'' \<in> set s)"
| "is_ipv6 v = False"

fun is_port :: "pyval \<Rightarrow> bool" where
  "is_port (PInt q) = True"
| "is_port v = False"

definition well_formed :: "banner \<Rightarrow> bool" where
  "well_formed b =
     ((case ip b of None \<Rightarrow> True | Some v \<Rightarrow> is_ip v)
      \<and> (case ipv6 b of None \<Rightarrow> True | Some v \<Rightarrow> is_ipv6 v)
      \<and> (case port b of None \<Rightarrow> True | Some v \<Rightarrow> is_port v))"

definition first_seen :: "world \<Rightarrow> pyval \<times> pyval \<Rightarrow> banner list \<Rightarrow> banner option" where
  "first_seen wld i bs = find (\<lambda>b. record_identity b = Some i \<and> get_ip wld b \<noteq> None) bs"

text \<open>Reading a decimal numeral back, to tell the texts of two integers apart.\<close>

definition digit_val :: "char \<Rightarrow> nat" where
  "digit_val c = of_char c - 48"

definition decode :: "string \<Rightarrow> nat" where
  "decode s = foldl (\<lambda>a c. 10 * a + digit_val c) 0 s"

section \<open>Example data\<close>

definition rec1 :: banner where
  "rec1 = \<lparr>ip = Some (PInt 16909060), ipv6 = None, ip_str = Some ''1.2.3.4'', port = Some (PInt 80),
            timestamp = ''2024-01-01T10:00:00'', payload = ''first''\<rparr>"

definition rec2 :: banner where
  "rec2 = \<lparr>ip = Some (PInt 16909060), ipv6 = None, ip_str = Some ''1.2.3.4'', port = Some (PInt 80),
            timestamp = ''2024-01-01T23:59:58'', payload = ''second''\<rparr>"

definition rec3 :: banner where
  "rec3 = \<lparr>ip = Some (PInt 84281096), ipv6 = None, ip_str = Some ''5.6.7.8'', port = Some (PInt 443),
            timestamp = ''2024-01-02T00:00:01'', payload = ''third''\<rparr>"

definition opts_limit2 :: stream_opts where
  "opts_limit2 = \<lparr>limit = 2, datadir = Some ''out'', quiet = True, compresslevel = 1\<rparr>"

definition opts_dir :: stream_opts where
  "opts_dir = \<lparr>limit = -1, datadir = Some ''out'', quiet = True, compresslevel = 1\<rparr>"

definition rec4 :: banner where
  "rec4 = \<lparr>ip = Some (PInt 84281096), ipv6 = None, ip_str = Some ''5.6.7.8'', port = Some (PInt 22),
            timestamp = ''2024-01-02T12:00:00'', payload = ''fourth''\<rparr>"

definition rec5 :: banner where
  "rec5 = \<lparr>ip = None, ipv6 = Some (PStr ''2001:db8::1''), ip_str = None, port = Some (PInt 443),
            timestamp = ''2024-01-03T00:00:05'', payload = ''fifth''\<rparr>"

text \<open>
  A helper that names a host as the library's \<open>helpers.get_ip\<close> does: by the \<open>ipv6\<close> field
  when the banner has one, else by \<open>ip_str\<close>.
\<close>

definition host_name :: "banner \<Rightarrow> string option" where
  "host_name b =
     (case ipv6 b of
        Some (PStr s) \<Rightarrow> Some s
      | Some v \<Rightarrow> Some (format_val v)
      | None \<Rightarrow> ip_str b)"

definition world_ok :: world where
  "world_ok = \<lparr>scan_reply = Ok ''scan1'', alert_reply = Ok ''alert1'', open_raises = None,
               clock = (\<lambda>k. 5),
               status_reply = (\<lambda>k. Ok \<lparr>dict_id = Some ''scan1'', dict_status = Some ''PROCESSING''\<rparr>),
               get_ip = host_name,
               report_raises = None, delete_reply = Ok ()\<rparr>"

definition world_done :: world where
  "world_done = \<lparr>scan_reply = Ok ''scan1'', alert_reply = Ok ''alert1'', open_raises = None,
               clock = (\<lambda>k. 61),
               status_reply = (\<lambda>k. Ok \<lparr>dict_id = Some ''scan1'', dict_status = Some ''DONE''\<rparr>),
               get_ip = host_name,
               report_raises = None, delete_reply = Ok ()\<rparr>"

definition ses20 :: session where
  "ses20 = \<lparr>wait = 20, scan_id = ''scan1'', alert_id = ''alert1''\<rparr>"

definition ses300 :: session where
  "ses300 = \<lparr>wait = 300, scan_id = ''scan1'', alert_id = ''alert1''\<rparr>"

definition rec_anon :: banner where
  "rec_anon = \<lparr>ip = None, ipv6 = None, ip_str = None, port = Some (PInt 80),
            timestamp = ''2024-01-01T10:00:00'', payload = ''anonymous''\<rparr>"

definition rec_clash :: banner where
  "rec_clash = \<lparr>ip = Some (PInt 16909061), ipv6 = None, ip_str = Some ''1.2.3.4'',
            port = Some (PInt 80), timestamp = ''2024-01-01T10:00:05'', payload = ''other host''\<rparr>"

definition rec_zero :: banner where
  "rec_zero = \<lparr>ip = Some (PInt 0), ipv6 = None, ip_str = Some ''0.0.0.0'',
            port = Some (PInt 80), timestamp = ''2024-01-01T10:00:06'', payload = ''zero''\<rparr>"

definition rec_text :: banner where
  "rec_text = \<lparr>ip = None, ipv6 = Some (PStr ''16909060''), ip_str = None,
            port = Some (PInt 80), timestamp = ''2024-01-01T10:00:07'', payload = ''text''\<rparr>"

section \<open>The stream command: properties\<close>

lemma opened_append: "opened (xs @ ys) = opened xs @ opened ys"
  by (induction xs rule: opened.induct) simp_all

lemma written_append: "written (xs @ ys) = written xs @ written ys"
  by (induction xs rule: written.induct) simp_all

lemma file_effects_append: "file_effects (xs @ ys) = file_effects xs @ file_effects ys"
  by (induction xs rule: file_effects.induct) simp_all

lemma stream_loop_append:
  "stream_loop opts st (xs @ ys) =
     (case stream_loop opts st xs of
        (Running, st1) \<Rightarrow> stream_loop opts st1 ys
      | r \<Rightarrow> r)"
proof (induction opts st xs rule: stream_loop.induct)
  case (1 opts st)
  then show ?case by simp
next
  case (2 opts st b d evs)
  then show ?case
    by (simp split: flow.splits prod.splits outcome.splits)
next
  case (3 opts st e evs)
  then show ?case
    by (simp split: prod.splits outcome.splits)
next
  case (4 opts st evs)
  then show ?case by simp
qed

lemma except_clause_cases:
  "except_clause st e =
     (if e = RequestsTimeout then (ClickException (Text ''Connection timed out''), st)
      else if e = KeyboardInterrupt then (Stopped, st\<lparr>quit := True\<rparr>)
      else case e of APIError v \<Rightarrow> (ClickException (Text v), st)
           | _ \<Rightarrow> (Running, emit CreateStream (emit (Sleep 1) st)))"
  by (cases e) simp_all

lemma for_body_sink:
  assumes "datadir_set opts" "fout st = Some h"
  shows "for_body opts st b d =
     (if limit opts > 0 \<and> counter st + 1 > limit opts
      then Break (st\<lparr>counter := counter st + 1, quit := True\<rparr>)
      else
        (let st1 = (if limit opts > 0 then st\<lparr>counter := counter st + 1\<rparr> else st);
             st2 = (if d \<noteq> last_time st
                    then emit (Write (Sink (datadir_name opts) d 9) b)
                           (emit (Open (Sink (datadir_name opts) d 9))
                             (emit (Close h) (st1\<lparr>last_time := d\<rparr>)
                                \<lparr>fout := Some (Sink (datadir_name opts) d 9)\<rparr>))
                    else emit (Write h b) st1)
         in Next (print_banner opts st2 b)))"
  using assms
  by (simp add: for_body_def count_banner_def write_data_def Let_def emit_def
      open_streaming_file_def default_compresslevel_def)

lemma emit_simps [simp]:
  "effects (emit e st) = effects st @ [e]"
  "counter (emit e st) = counter st"
  "quit (emit e st) = quit st"
  "last_time (emit e st) = last_time st"
  "fout (emit e st) = fout st"
  by (simp_all add: emit_def)

lemma print_banner_simps [simp]:
  "counter (print_banner opts st b) = counter st"
  "quit (print_banner opts st b) = quit st"
  "last_time (print_banner opts st b) = last_time st"
  "fout (print_banner opts st b) = fout st"
  "written (effects (print_banner opts st b)) = written (effects st)"
  "opened (effects (print_banner opts st b)) = opened (effects st)"
  "file_effects (effects (print_banner opts st b)) = file_effects (effects st)"
  by (simp_all add: print_banner_def written_append opened_append file_effects_append)

lemma stream_loop_limit:
  assumes "0 < limit opts" "datadir_set opts"
  shows "fout st = Some h \<Longrightarrow> 0 \<le> counter st \<Longrightarrow> counter st \<le> limit opts \<Longrightarrow>
     map snd (written (effects (snd (stream_loop opts st (items bds))))) =
       map snd (written (effects st)) @ take (nat (limit opts - counter st)) (map fst bds)
     \<and> fst (stream_loop opts st (items bds)) =
         (if limit opts - counter st < int (length bds) then Stopped else Running)
     \<and> counter (snd (stream_loop opts st (items bds))) =
         min (counter st + int (length bds)) (limit opts + 1)"
proof (induction bds arbitrary: st h)
  case Nil
  then show ?case by simp
next
  case (Cons bd bds)
  obtain b d where bd: "bd = (b, d)" by (cases bd)
  show ?case
  proof (cases "counter st + 1 > limit opts")
    case True
    with Cons.prems assms have eq: "counter st = limit opts" by simp
    from True assms Cons.prems show ?thesis
      by (simp add: bd for_body_sink)
  next
    case False
    define st2 where "st2 = (if d \<noteq> last_time st
                    then emit (Write (Sink (datadir_name opts) d 9) b)
                           (emit (Open (Sink (datadir_name opts) d 9))
                             (emit (Close h) (st\<lparr>counter := counter st + 1, last_time := d\<rparr>)
                                \<lparr>fout := Some (Sink (datadir_name opts) d 9)\<rparr>))
                    else emit (Write h b) (st\<lparr>counter := counter st + 1\<rparr>))"
    have fb: "for_body opts st b d = Next (print_banner opts st2 b)"
      using False assms Cons.prems by (simp add: for_body_sink st2_def Let_def)
    have c2: "counter (print_banner opts st2 b) = counter st + 1"
      by (simp add: st2_def)
    have f2: "\<exists>h'. fout (print_banner opts st2 b) = Some h'"
      using Cons.prems by (simp add: st2_def)
    have w2: "map snd (written (effects (print_banner opts st2 b))) = map snd (written (effects st)) @ [b]"
      by (simp add: st2_def written_append)
    from f2 obtain h' where h': "fout (print_banner opts st2 b) = Some h'" by blast
    have ih: "map snd (written (effects (snd (stream_loop opts (print_banner opts st2 b) (items bds))))) =
       (map snd (written (effects st)) @ [b]) @ take (nat (limit opts - (counter st + 1))) (map fst bds)
     \<and> fst (stream_loop opts (print_banner opts st2 b) (items bds)) =
         (if limit opts - (counter st + 1) < int (length bds) then Stopped else Running)
     \<and> counter (snd (stream_loop opts (print_banner opts st2 b) (items bds))) =
         min (counter st + 1 + int (length bds)) (limit opts + 1)"
      using Cons.IH [OF h'] False Cons.prems c2 w2 by simp
    have tk: "take (nat (limit opts - counter st)) (b # map fst bds) =
              b # take (nat (limit opts - (counter st + 1))) (map fst bds)"
    proof -
      have "nat (limit opts - counter st) = Suc (nat (limit opts - (counter st + 1)))"
        using False by simp
      then show ?thesis by simp
    qed
    show ?thesis
      using ih tk by (simp add: bd fb) 
  qed
qed

lemma stream_init_sink:
  "datadir_set opts \<Longrightarrow>
   stream_init opts start =
     \<lparr>counter = 0, quit = False, last_time = start,
      fout = Some (Sink (datadir_name opts) start (compresslevel opts)),
      effects = [CreateStream, Open (Sink (datadir_name opts) start (compresslevel opts))]\<rparr>"
  by (simp add: stream_init_def emit_def open_streaming_file_def Let_def)

text \<open>
  Claim C1, as the code has it. With a positive \<open>limit\<close> and a data directory, the
  count against the limit comes before the write: of the banners the channel yields,
  exactly the first \<open>limit\<close> are written, in order; the loop is left when banner number
  \<open>limit + 1\<close> arrives, and that banner is counted but not written. With \<open>limit = 2\<close>
  two banners are written and the third one ends the loop.
\<close>

theorem stream_limit_check_precedes_write:
  assumes "0 < limit opts" and "datadir_set opts"
  shows "map snd (written (effects (snd (stream_cmd opts start (items bds))))) =
           take (nat (limit opts)) (map fst bds)
       \<and> fst (stream_cmd opts start (items bds)) =
           (if limit opts < int (length bds) then Stopped else Running)
       \<and> counter (snd (stream_cmd opts start (items bds))) =
           min (int (length bds)) (limit opts + 1)"
proof -
  let ?st = "stream_init opts start"
  have f: "fout ?st = Some (Sink (datadir_name opts) start (compresslevel opts))"
    and c: "counter ?st = 0" and w: "written (effects ?st) = []"
    using assms(2) by (simp_all add: stream_init_sink)
  from stream_loop_limit [OF assms f, of bds] c w assms(1)
  show ?thesis by (simp add: stream_cmd_def)
qed

text \<open>The same at \<open>limit = 2\<close> with three banners.\<close>

theorem stream_limit_check_precedes_write_witness:
  "map snd (written (effects (snd (stream_cmd opts_limit2 ''2024-01-01''
       (items [(rec1, ''2024-01-01''), (rec2, ''2024-01-01''), (rec3, ''2024-01-02'')]))))) = [rec1, rec2]
   \<and> fst (stream_cmd opts_limit2 ''2024-01-01''
       (items [(rec1, ''2024-01-01''), (rec2, ''2024-01-01''), (rec3, ''2024-01-02'')])) = Stopped"
  using stream_limit_check_precedes_write [of opts_limit2 "''2024-01-01''"
      "[(rec1, ''2024-01-01''), (rec2, ''2024-01-01''), (rec3, ''2024-01-02'')]"]
  by (simp add: opts_limit2_def datadir_set_def)

text \<open>
  Claim C1 as stated fails: with \<open>limit = 2\<close> the third banner is taken from the channel
  and counted, the loop stops, and the banner is never written.
\<close>

theorem stream_limit_drops_record:
  "fst (stream_cmd opts_limit2 ''2024-01-01''
         [Item rec1 ''2024-01-01'', Item rec2 ''2024-01-01'', Item rec3 ''2024-01-02'']) = Stopped
   \<and> counter (snd (stream_cmd opts_limit2 ''2024-01-01''
         [Item rec1 ''2024-01-01'', Item rec2 ''2024-01-01'', Item rec3 ''2024-01-02''])) = 3
   \<and> rec3 \<notin> snd ` set (written (effects (snd (stream_cmd opts_limit2 ''2024-01-01''
         [Item rec1 ''2024-01-01'', Item rec2 ''2024-01-01'', Item rec3 ''2024-01-02'']))))"
  by (simp add: stream_cmd_def stream_init_def opts_limit2_def datadir_set_def datadir_name_def
      for_body_def count_banner_def write_data_def print_banner_def emit_def Let_def
      open_streaming_file_def default_compresslevel_def rec1_def rec2_def rec3_def)

lemma rotated_for_iff:
  "rotated_for dir evs ws s \<longleftrightarrow> (\<exists>b d. Item b d \<in> set evs \<and> s = Sink dir d 9 \<and> (s, b) \<in> set ws)"
  by (induction evs) (auto simp add: rotated_for_def split: stream_event.splits)

lemma rotated_for_mono:
  "rotated_for dir evs ws s \<Longrightarrow> rotated_for dir (ev # evs) (ws0 @ ws) s"
  unfolding rotated_for_iff by auto

lemma rotated_for_here:
  "s = Sink dir d 9 \<Longrightarrow> (s, b) \<in> set ws \<Longrightarrow> rotated_for dir (Item b d # evs) (ws @ ws') s"
  unfolding rotated_for_iff by auto

lemma for_body_files:
  "\<exists>ss ws. opened (effects (flow_state (for_body opts st b d))) = opened (effects st) @ ss
     \<and> written (effects (flow_state (for_body opts st b d))) = written (effects st) @ ws
     \<and> (\<forall>s\<in>set ss. s = Sink (datadir_name opts) d 9 \<and> (s, b) \<in> set ws)"
proof (cases "datadir_set opts \<and> d \<noteq> last_time st \<and> fout st \<noteq> None
              \<and> \<not> (limit opts > 0 \<and> counter st + 1 > limit opts)")
  case True
  then obtain h where h: "fout st = Some h" by auto
  let ?s = "Sink (datadir_name opts) d 9"
  have "opened (effects (flow_state (for_body opts st b d))) = opened (effects st) @ [?s]"
    and "written (effects (flow_state (for_body opts st b d))) = written (effects st) @ [(?s, b)]"
    using True h by (simp_all add: for_body_sink Let_def opened_append written_append)
  moreover have "\<forall>s\<in>set [?s]. s = ?s \<and> (s, b) \<in> set [(?s, b)]" by simp
  ultimately show ?thesis by blast
next
  case False
  have "opened (effects (flow_state (for_body opts st b d))) = opened (effects st) @ []"
    using False
    by (auto simp add: for_body_def count_banner_def write_data_def Let_def print_banner_def
      opened_append split: option.splits)
  moreover have "\<exists>ws. written (effects (flow_state (for_body opts st b d))) = written (effects st) @ ws"
    by (auto simp add: for_body_def count_banner_def write_data_def Let_def print_banner_def
      written_append split: option.splits)
  ultimately show ?thesis by (metis empty_iff list.set(1))
qed

lemma except_clause_files:
  "opened (effects (snd (except_clause st e))) = opened (effects st)"
  "written (effects (snd (except_clause st e))) = written (effects st)"
  by (cases e; simp add: opened_append written_append)+

lemma stream_loop_files:
  "\<exists>ss ws. opened (effects (snd (stream_loop opts st evs))) = opened (effects st) @ ss
     \<and> written (effects (snd (stream_loop opts st evs))) = written (effects st) @ ws
     \<and> (\<forall>s\<in>set ss. rotated_for (datadir_name opts) evs ws s)"
proof (induction opts st evs rule: stream_loop.induct)
  case (1 opts st)
  then show ?case by simp
next
  case (2 opts st b d evs)
  let ?dir = "datadir_name opts"
  obtain ss ws where fb:
    "opened (effects (flow_state (for_body opts st b d))) = opened (effects st) @ ss"
    "written (effects (flow_state (for_body opts st b d))) = written (effects st) @ ws"
    "\<forall>s\<in>set ss. s = Sink ?dir d 9 \<and> (s, b) \<in> set ws"
    using for_body_files [of opts st b d] by blast
  have here: "\<And>ws'. \<forall>s\<in>set ss. rotated_for ?dir (Item b d # evs) (ws @ ws') s"
    using fb(3) rotated_for_here by blast
  have stop: "\<forall>s\<in>set ss. rotated_for ?dir (Item b d # evs) ws s"
    using here [of "[]"] by simp
  have continue: "\<exists>ss' ws'. opened (effects (snd (stream_loop opts st1 evs))) = opened (effects st) @ ss'
       \<and> written (effects (snd (stream_loop opts st1 evs))) = written (effects st) @ ws'
       \<and> (\<forall>s\<in>set ss'. rotated_for ?dir (Item b d # evs) ws' s)"
    if o1: "opened (effects st1) = opened (effects st) @ ss"
      and w1: "written (effects st1) = written (effects st) @ ws"
      and ih: "\<exists>ss' ws'. opened (effects (snd (stream_loop opts st1 evs))) = opened (effects st1) @ ss'
         \<and> written (effects (snd (stream_loop opts st1 evs))) = written (effects st1) @ ws'
         \<and> (\<forall>s\<in>set ss'. rotated_for ?dir evs ws' s)"
    for st1
  proof -
    from ih obtain ss' ws' where ih':
      "opened (effects (snd (stream_loop opts st1 evs))) = opened (effects st1) @ ss'"
      "written (effects (snd (stream_loop opts st1 evs))) = written (effects st1) @ ws'"
      "\<forall>s\<in>set ss'. rotated_for ?dir evs ws' s"
      by blast
    have a: "opened (effects (snd (stream_loop opts st1 evs))) = opened (effects st) @ (ss @ ss')"
      using ih'(1) o1 by simp
    have b: "written (effects (snd (stream_loop opts st1 evs))) = written (effects st) @ (ws @ ws')"
      using ih'(2) w1 by simp
    have c: "\<forall>s\<in>set (ss @ ss'). rotated_for ?dir (Item b d # evs) (ws @ ws') s"
    proof
      fix s assume "s \<in> set (ss @ ss')"
      then consider "s \<in> set ss" | "s \<in> set ss'" by auto
      then show "rotated_for ?dir (Item b d # evs) (ws @ ws') s"
      proof cases
        case 1
        then show ?thesis using here by blast
      next
        case 2
        then show ?thesis using ih'(3) rotated_for_mono by blast
      qed
    qed
    from a b c show ?thesis by blast
  qed
  show ?case
  proof (cases "for_body opts st b d")
    case (Next st1)
    have "opened (effects st1) = opened (effects st) @ ss"
      and "written (effects st1) = written (effects st) @ ws"
      using fb Next by simp_all
    from continue [OF this "2.IH"(1) [OF Next]] show ?thesis using Next by simp
  next
    case (Break st1)
    then show ?thesis using fb(1,2) stop by auto
  next
    case (Throw e st1)
    obtain out st2 where ec: "except_clause st1 e = (out, st2)" by (cases "except_clause st1 e")
    have e2: "opened (effects st2) = opened (effects st) @ ss"
             "written (effects st2) = written (effects st) @ ws"
      using except_clause_files [of st1 e] ec Throw fb by simp_all
    show ?thesis
    proof (cases "out = Running")
      case True
      from continue [OF e2 "2.IH"(2) [OF Throw ec [symmetric] True]]
      show ?thesis using Throw ec True by simp
    next
      case False
      have "snd (stream_loop opts st (Item b d # evs)) = st2"
        using Throw ec False by (simp split: outcome.splits)
      then show ?thesis using e2 stop by auto
    qed
  qed
next
  case (3 opts st e evs)
  let ?dir = "datadir_name opts"
  obtain out st1 where ec: "except_clause st e = (out, st1)" by (cases "except_clause st e")
  have e1: "opened (effects st1) = opened (effects st)" "written (effects st1) = written (effects st)"
    using except_clause_files [of st e] ec by simp_all
  show ?case
  proof (cases "out = Running")
    case True
    from "3.IH" [OF ec [symmetric] True] obtain ss' ws' where ih:
      "opened (effects (snd (stream_loop opts st1 evs))) = opened (effects st1) @ ss'"
      "written (effects (snd (stream_loop opts st1 evs))) = written (effects st1) @ ws'"
      "\<forall>s\<in>set ss'. rotated_for ?dir evs ws' s"
      by blast
    have "opened (effects (snd (stream_loop opts st (Fails e # evs)))) = opened (effects st) @ ss'"
      and "written (effects (snd (stream_loop opts st (Fails e # evs)))) = written (effects st) @ ws'"
      using ec True e1 ih by simp_all
    moreover have "\<forall>s\<in>set ss'. rotated_for ?dir (Fails e # evs) ws' s"
      using ih(3) rotated_for_mono [of ?dir evs ws' _ "Fails e" "[]"] by simp
    ultimately show ?thesis by blast
  next
    case False
    have "snd (stream_loop opts st (Fails e # evs)) = st1"
      using ec False by (simp split: outcome.splits)
    then show ?thesis using e1 by simp
  qed
next
  case (4 opts st evs)
  then show ?case by simp
qed

lemma stream_cmd_files:
  assumes "datadir_set opts"
  shows "\<exists>ss ws. opened (effects (snd (stream_cmd opts start evs))) =
            Sink (datadir_name opts) start (compresslevel opts) # ss
     \<and> written (effects (snd (stream_cmd opts start evs))) = ws
     \<and> (\<forall>s\<in>set ss. rotated_for (datadir_name opts) evs ws s)"
  using stream_loop_files [of opts "stream_init opts start" evs] assms
  by (simp add: stream_cmd_def stream_init_sink)

text \<open>
  Claim C10. With a data directory, the first file opened is the one of the start day,
  with the configured \<open>--compresslevel\<close>; every file opened later, by a rotation, has
  compression level 9, whatever was configured.
\<close>

theorem stream_compresslevel_first_file_only:
  assumes "datadir_set opts"
  shows "hd (opened (effects (snd (stream_cmd opts start evs)))) =
           Sink (datadir_name opts) start (compresslevel opts)
       \<and> (\<forall>s\<in>set (tl (opened (effects (snd (stream_cmd opts start evs))))).
             sink_level s = 9)"
proof -
  from stream_cmd_files [OF assms, of start evs] obtain ss ws where f:
    "opened (effects (snd (stream_cmd opts start evs))) =
       Sink (datadir_name opts) start (compresslevel opts) # ss"
    "\<forall>s\<in>set ss. rotated_for (datadir_name opts) evs ws s"
    by blast
  have "\<forall>s\<in>set ss. sink_level s = 9"
    using f(2) unfolding rotated_for_iff by auto
  with f(1) show ?thesis by simp
qed

text \<open>With \<open>--compresslevel 1\<close>, the file of the second day is opened with level 9.\<close>

theorem stream_compresslevel_first_file_only_witness:
  "datadir_set opts_dir
   \<and> opened (effects (snd (stream_cmd opts_dir ''2024-01-01''
      [Item rec1 ''2024-01-01'', Item rec3 ''2024-01-02'']))) =
     [Sink ''out'' ''2024-01-01'' 1, Sink ''out'' ''2024-01-02'' 9]
   \<and> map sink_level (tl (opened (effects (snd (stream_cmd opts_dir ''2024-01-01''
      [Item rec1 ''2024-01-01'', Item rec3 ''2024-01-02'']))))) = [9]"
proof -
  have d: "datadir_set opts_dir" by (simp add: opts_dir_def datadir_set_def)
  have o: "opened (effects (snd (stream_cmd opts_dir ''2024-01-01''
      [Item rec1 ''2024-01-01'', Item rec3 ''2024-01-02'']))) =
     [Sink ''out'' ''2024-01-01'' 1, Sink ''out'' ''2024-01-02'' 9]"
    by (simp add: stream_cmd_def stream_init_def opts_dir_def datadir_set_def datadir_name_def
      for_body_def count_banner_def write_data_def print_banner_def emit_def Let_def
      open_streaming_file_def default_compresslevel_def)
  from stream_compresslevel_first_file_only [OF d, of "''2024-01-01''"
      "[Item rec1 ''2024-01-01'', Item rec3 ''2024-01-02'']"] d o
  show ?thesis by simp
qed





lemma print_banner_state [simp]:
  "file_effects (effects (print_banner opts st b)) = file_effects (effects st)"
  "fout (print_banner opts st b) = fout st"
  "last_time (print_banner opts st b) = last_time st"
  by (simp_all add: print_banner_def emit_def file_effects_append)








text \<open>
  Claim C3, as the code has it. Rotation follows the day that \<open>timestr()\<close> returns while
  a banner is processed, whatever the banner's own \<open>timestamp\<close> says. When the command
  starts on day \<open>d1\<close> and five banners are processed on the days \<open>d1, d1, d2, d2, d3\<close>,
  three handles are opened, and each banner is written to the handle of the day on which
  it is processed.
\<close>

theorem stream_rotation_by_processing_day:
  assumes "datadir opts = Some dir" and "dir \<noteq> []"
    and "limit opts \<le> 0 \<or> 5 \<le> limit opts"
    and "d1 \<noteq> d2" and "d2 \<noteq> d3"
  shows "file_effects (effects (snd (stream_cmd opts d1
            [Item b1 d1, Item b2 d1, Item b3 d2, Item b4 d2, Item b5 d3]))) =
          [Open (Sink dir d1 (compresslevel opts)),
           Write (Sink dir d1 (compresslevel opts)) b1,
           Write (Sink dir d1 (compresslevel opts)) b2,
           Close (Sink dir d1 (compresslevel opts)),
           Open (Sink dir d2 9), Write (Sink dir d2 9) b3, Write (Sink dir d2 9) b4,
           Close (Sink dir d2 9),
           Open (Sink dir d3 9), Write (Sink dir d3 9) b5]
       \<and> length (opened (effects (snd (stream_cmd opts d1
            [Item b1 d1, Item b2 d1, Item b3 d2, Item b4 d2, Item b5 d3])))) = 3"
proof -
  have ds: "datadir_set opts" and dn: "datadir_name opts = dir"
    using assms(1,2) by (simp_all add: datadir_set_def datadir_name_def)
  show ?thesis
    using assms(3,4,5) ds dn
    by (auto simp add: stream_cmd_def stream_init_sink for_body_sink Let_def print_banner_def
        emit_def)
qed

text \<open>Five banners over the first three days of January.\<close>

theorem stream_rotation_by_processing_day_witness:
  "datadir opts_dir = Some ''out'' \<and> ''out'' \<noteq> []
   \<and> limit opts_dir \<le> 0 \<and> ''2024-01-01'' \<noteq> ''2024-01-02'' \<and> ''2024-01-02'' \<noteq> ''2024-01-03''
   \<and> opened (effects (snd (stream_cmd opts_dir ''2024-01-01''
            [Item rec1 ''2024-01-01'', Item rec2 ''2024-01-01'', Item rec3 ''2024-01-02'',
             Item rec4 ''2024-01-02'', Item rec5 ''2024-01-03'']))) =
       [Sink ''out'' ''2024-01-01'' 1, Sink ''out'' ''2024-01-02'' 9, Sink ''out'' ''2024-01-03'' 9]
   \<and> written (effects (snd (stream_cmd opts_dir ''2024-01-01''
            [Item rec1 ''2024-01-01'', Item rec2 ''2024-01-01'', Item rec3 ''2024-01-02'',
             Item rec4 ''2024-01-02'', Item rec5 ''2024-01-03'']))) =
       [(Sink ''out'' ''2024-01-01'' 1, rec1), (Sink ''out'' ''2024-01-01'' 1, rec2),
        (Sink ''out'' ''2024-01-02'' 9, rec3), (Sink ''out'' ''2024-01-02'' 9, rec4),
        (Sink ''out'' ''2024-01-03'' 9, rec5)]"
proof -
  have h: "datadir opts_dir = Some ''out''" "''out'' \<noteq> []" "limit opts_dir \<le> 0 \<or> 5 \<le> limit opts_dir"
    "''2024-01-01'' \<noteq> ''2024-01-02''" "''2024-01-02'' \<noteq> ''2024-01-03''"
    "compresslevel opts_dir = 1" "limit opts_dir \<le> 0"
    by (simp_all add: opts_dir_def)
  have o: "\<And>es. opened es = opened (file_effects es)"
  proof -
    fix es show "opened es = opened (file_effects es)"
      by (induction es rule: file_effects.induct) simp_all
  qed
  have w: "\<And>es. written es = written (file_effects es)"
  proof -
    fix es show "written es = written (file_effects es)"
      by (induction es rule: file_effects.induct) simp_all
  qed
  from stream_rotation_by_processing_day [OF h(1-5), of rec1 rec2 rec3 rec4 rec5]
  have "file_effects (effects (snd (stream_cmd opts_dir ''2024-01-01''
            [Item rec1 ''2024-01-01'', Item rec2 ''2024-01-01'', Item rec3 ''2024-01-02'',
             Item rec4 ''2024-01-02'', Item rec5 ''2024-01-03'']))) =
          [Open (Sink ''out'' ''2024-01-01'' 1),
           Write (Sink ''out'' ''2024-01-01'' 1) rec1,
           Write (Sink ''out'' ''2024-01-01'' 1) rec2,
           Close (Sink ''out'' ''2024-01-01'' 1),
           Open (Sink ''out'' ''2024-01-02'' 9), Write (Sink ''out'' ''2024-01-02'' 9) rec3,
           Write (Sink ''out'' ''2024-01-02'' 9) rec4,
           Close (Sink ''out'' ''2024-01-02'' 9),
           Open (Sink ''out'' ''2024-01-03'' 9), Write (Sink ''out'' ''2024-01-03'' 9) rec5]"
    unfolding h(6) by simp
  then show ?thesis
    using h o [of "effects (snd (stream_cmd opts_dir ''2024-01-01''
            [Item rec1 ''2024-01-01'', Item rec2 ''2024-01-01'', Item rec3 ''2024-01-02'',
             Item rec4 ''2024-01-02'', Item rec5 ''2024-01-03'']))"]
      w [of "effects (snd (stream_cmd opts_dir ''2024-01-01''
            [Item rec1 ''2024-01-01'', Item rec2 ''2024-01-01'', Item rec3 ''2024-01-02'',
             Item rec4 ''2024-01-02'', Item rec5 ''2024-01-03'']))"]
    by simp
qed

text \<open>
  Claim C3 as stated fails: five banners whose timestamps span the days
  \<open>D1, D1, D2, D2, D3\<close>, all processed on one day of the wall clock, go to one handle.
\<close>

theorem stream_rotation_ignores_record_timestamp:
  "map (take 10 \<circ> timestamp) [rec1, rec2, rec3, rec4, rec5] =
     [''2024-01-01'', ''2024-01-01'', ''2024-01-02'', ''2024-01-02'', ''2024-01-03'']
   \<and> opened (effects (snd (stream_cmd opts_dir ''2024-01-03''
            [Item rec1 ''2024-01-03'', Item rec2 ''2024-01-03'', Item rec3 ''2024-01-03'',
             Item rec4 ''2024-01-03'', Item rec5 ''2024-01-03'']))) = [Sink ''out'' ''2024-01-03'' 1]
   \<and> length (opened (effects (snd (stream_cmd opts_dir ''2024-01-03''
            [Item rec1 ''2024-01-03'', Item rec2 ''2024-01-03'', Item rec3 ''2024-01-03'',
             Item rec4 ''2024-01-03'', Item rec5 ''2024-01-03''])))) \<noteq> 3"
  by (simp add: stream_cmd_def stream_init_def opts_dir_def datadir_set_def datadir_name_def
      for_body_def count_banner_def write_data_def print_banner_def emit_def Let_def
      open_streaming_file_def default_compresslevel_def rec1_def rec2_def rec3_def rec4_def rec5_def)

text \<open>
  Claim C5, as the code has it. While the loop is running, a \<open>shodan.APIError\<close> aborts
  the command with its value and a \<open>requests\<close> timeout aborts it with
  \<open>Connection timed out\<close>, both without any further effect; an exception that is none of
  these and no \<open>KeyboardInterrupt\<close> is followed by a sleep of one second and a new stream,
  and the loop goes on.
\<close>

theorem stream_errors_by_class:
  assumes "stream_cmd opts start pre = (Running, st)"
  shows "stream_cmd opts start (pre @ Fails (APIError v) # rest) = (ClickException (Text v), st)
       \<and> stream_cmd opts start (pre @ Fails RequestsTimeout # rest) =
           (ClickException (Text ''Connection timed out''), st)
       \<and> (e \<noteq> RequestsTimeout \<and> e \<noteq> KeyboardInterrupt \<and> (\<forall>w. e \<noteq> APIError w) \<longrightarrow>
           stream_cmd opts start (pre @ Fails e # rest) =
             stream_loop opts (emit CreateStream (emit (Sleep 1) st)) rest)"
  using assms
  by (simp add: stream_cmd_def stream_loop_append except_clause_cases split: exn.splits)

text \<open>An \<open>APIError\<close> and a \<open>socket.timeout\<close> after one banner.\<close>

theorem stream_errors_by_class_witness:
  "stream_cmd opts_dir ''2024-01-01'' [Item rec1 ''2024-01-01''] =
      (Running, snd (stream_cmd opts_dir ''2024-01-01'' [Item rec1 ''2024-01-01'']))
   \<and> stream_cmd opts_dir ''2024-01-01'' ([Item rec1 ''2024-01-01''] @ Fails (APIError ''Invalid API key'') # [Item rec2 ''2024-01-01'']) =
      (ClickException (Text ''Invalid API key''), snd (stream_cmd opts_dir ''2024-01-01'' [Item rec1 ''2024-01-01'']))
   \<and> effects (snd (stream_cmd opts_dir ''2024-01-01'' ([Item rec1 ''2024-01-01''] @ Fails SocketTimeout # []))) =
      [CreateStream, Open (Sink ''out'' ''2024-01-01'' 1), Write (Sink ''out'' ''2024-01-01'' 1) rec1,
       Sleep 1, CreateStream]
   \<and> fst (stream_cmd opts_dir ''2024-01-01'' ([Item rec1 ''2024-01-01''] @ Fails SocketTimeout # [])) = Running"
proof -
  have r: "stream_cmd opts_dir ''2024-01-01'' [Item rec1 ''2024-01-01''] =
      (Running, snd (stream_cmd opts_dir ''2024-01-01'' [Item rec1 ''2024-01-01'']))"
    by (simp add: stream_cmd_def stream_init_def opts_dir_def datadir_set_def datadir_name_def
      for_body_def count_banner_def write_data_def print_banner_def emit_def Let_def
      open_streaming_file_def default_compresslevel_def)
  have s: "effects (snd (stream_cmd opts_dir ''2024-01-01'' [Item rec1 ''2024-01-01''])) =
      [CreateStream, Open (Sink ''out'' ''2024-01-01'' 1), Write (Sink ''out'' ''2024-01-01'' 1) rec1]"
    by (simp add: stream_cmd_def stream_init_def opts_dir_def datadir_set_def datadir_name_def
      for_body_def count_banner_def write_data_def print_banner_def emit_def Let_def
      open_streaming_file_def default_compresslevel_def)
  from stream_errors_by_class [OF r, of "''Invalid API key''" "[Item rec2 ''2024-01-01'']" SocketTimeout]
    stream_errors_by_class [OF r, of "''Invalid API key''" "[]" SocketTimeout]
  show ?thesis using r s by simp
qed

text \<open>
  Claim C5 as stated fails for the time-out of \<open>requests\<close>: the command aborts, with no
  sleep and no new stream.
\<close>

theorem stream_requests_timeout_aborts:
  "stream_cmd opts_dir ''2024-01-01'' [Fails RequestsTimeout, Item rec1 ''2024-01-01''] =
     (ClickException (Text ''Connection timed out''), stream_init opts_dir ''2024-01-01'')
   \<and> effects (snd (stream_cmd opts_dir ''2024-01-01'' [Fails RequestsTimeout, Item rec1 ''2024-01-01''])) =
       [CreateStream, Open (Sink ''out'' ''2024-01-01'' 1)]
   \<and> Sleep 1 \<notin> set (effects (snd (stream_cmd opts_dir ''2024-01-01'' [Fails RequestsTimeout, Item rec1 ''2024-01-01''])))"
  by (simp add: stream_cmd_def stream_init_def opts_dir_def datadir_set_def datadir_name_def
      emit_def Let_def open_streaming_file_def)

section \<open>The scan submit command: properties\<close>

lemma called_simps [simp]:
  "calls (called c st) = calls st @ [c]"
  "hosts (called c st) = hosts st"
  "cache (called c st) = cache st"
  "is_done (called c st) = is_done st"
  "reads (called c st) = reads st"
  "polls (called c st) = polls st"
  by (simp_all add: called_def)

lemma reopen_simps [simp]:
  "calls (reopen ses st) = calls st @ [ApiStreamAlert (alert_id ses) (wait ses)]"
  "hosts (reopen ses st) = hosts st"
  "cache (reopen ses st) = cache st"
  "is_done (reopen ses st) = is_done st"
  "reads (reopen ses st) = reads st"
  "polls (reopen ses st) = polls st"
  by (simp_all add: reopen_def)

lemma monitor_loop_append:
  "monitor_loop wld ses st (xs @ ys) =
     (case monitor_loop wld ses st xs of
        (Listening, st1) \<Rightarrow> monitor_loop wld ses st1 ys
      | r \<Rightarrow> r)"
proof (induction wld ses st xs rule: monitor_loop.induct)
  case (1 wld ses st)
  then show ?case by simp
next
  case (2 wld ses st b evs)
  then show ?case
    by (simp split: flow.splits prod.splits progress.splits)
next
  case (3 wld ses st e evs)
  then show ?case
    by (simp split: prod.splits progress.splits)
next
  case (4 wld ses st evs)
  then show ?case by simp
qed

lemma group_banner_deletes:
  "filter is_delete (calls (flow_state (group_banner wld st b))) = filter is_delete (calls st)"
  by (simp add: group_banner_def Let_def split: option.splits)

lemma check_scan_deletes:
  "filter is_delete (calls (flow_state (check_scan wld st))) = filter is_delete (calls st)"
  by (simp add: check_scan_def Let_def split: api.splits option.splits)

lemma on_banner_deletes:
  "filter is_delete (calls (flow_state (on_banner wld st b))) = filter is_delete (calls st)"
proof (cases "group_banner wld st b")
  case (Next st1)
  then show ?thesis
    using group_banner_deletes [of wld st b] check_scan_deletes [of wld st1]
    by (simp add: on_banner_def)
next
  case (Break st1)
  then show ?thesis
    using group_banner_deletes [of wld st b] by (simp add: on_banner_def)
next
  case (Throw e st1)
  then show ?thesis
    using group_banner_deletes [of wld st b] by (simp add: on_banner_def)
qed

lemma handler_deletes:
  "filter is_delete (calls (snd (handler wld ses st e))) = filter is_delete (calls st)"
  by (cases e)
    (simp_all add: on_api_error_def on_socket_timeout_def Let_def split: api.splits option.splits)

lemma monitor_loop_deletes:
  "filter is_delete (calls (snd (monitor_loop wld ses st evs))) = filter is_delete (calls st)"
proof (induction wld ses st evs rule: monitor_loop.induct)
  case (1 wld ses st)
  then show ?case by simp
next
  case (2 wld ses st b evs)
  show ?case
  proof (cases "on_banner wld st b")
    case (Next st1)
    then show ?thesis
      using "2.IH"(1) [OF Next] on_banner_deletes [of wld st b] by simp
  next
    case (Break st1)
    then show ?thesis using on_banner_deletes [of wld st b] by simp
  next
    case (Throw e st1)
    obtain pr st2 where h: "handler wld ses st1 e = (pr, st2)" by (cases "handler wld ses st1 e")
    have d2: "filter is_delete (calls st2) = filter is_delete (calls st)"
      using handler_deletes [of wld ses st1 e] h on_banner_deletes [of wld st b] Throw by simp
    show ?thesis
    proof (cases "pr = Listening")
      case True
      then show ?thesis
        using "2.IH"(2) [OF Throw h [symmetric] True] Throw h d2 by simp
    next
      case False
      then show ?thesis using Throw h d2 by (simp split: progress.splits)
    qed
  qed
next
  case (3 wld ses st e evs)
  obtain pr st1 where h: "handler wld ses st e = (pr, st1)" by (cases "handler wld ses st e")
  have d1: "filter is_delete (calls st1) = filter is_delete (calls st)"
    using handler_deletes [of wld ses st e] h by simp
  show ?case
  proof (cases "pr = Listening")
    case True
    then show ?thesis using "3.IH" [OF h [symmetric] True] h d1 by simp
  next
    case False
    then show ?thesis using h d1 by (simp split: progress.splits)
  qed
next
  case (4 wld ses st evs)
  then show ?case by simp
qed

lemma finally_clause_deletes:
  "filter is_delete (calls (snd (finally_clause wld alert r))) =
     filter is_delete (calls (snd r)) @ (case alert of None \<Rightarrow> [] | Some aid \<Rightarrow> [ApiDeleteAlert aid])"
  by (simp add: finally_clause_def Let_def split: option.splits api.splits)

lemma open_output_deletes:
  "filter is_delete (snd (open_output wld filename [ApiScan, ApiCreateAlert])) = []"
  by (simp add: open_output_def Let_def)

lemma open_output_creates:
  "ApiCreateAlert \<in> set (snd (open_output wld filename [ApiScan, ApiCreateAlert]))"
  by (simp add: open_output_def Let_def)

lemma monitor_session_deletes:
  "filter is_delete (calls (snd (monitor_session wld ses cs evs))) = filter is_delete cs"
  using monitor_loop_deletes [of wld ses "reopen ses (monitor_init (first_scan (scan_id ses)) cs)" evs]
  by (simp add: monitor_session_def monitor_init_def)

lemma scan_submit_monitoring_deletes:
  assumes s: "scan_reply wld = Ok sid" and w: "0 < w" and a: "alert_reply wld = Ok aid"
  shows "filter is_delete (calls (snd (scan_submit wld w filename evs))) =
      (if fst (scan_submit wld w filename evs) = Pending then [] else [ApiDeleteAlert aid])"
proof -
  let ?ses = "\<lparr>wait = w, scan_id = sid, alert_id = aid\<rparr>"
  obtain oe cs where o: "open_output wld filename [ApiScan, ApiCreateAlert] = (oe, cs)"
    by (cases "open_output wld filename [ApiScan, ApiCreateAlert]")
  have cs: "filter is_delete cs = []"
    using open_output_deletes [of wld filename] o by simp
  show ?thesis
  proof (cases oe)
    case (Some e)
    then show ?thesis
      using s w a o cs
      by (simp add: scan_submit_def finally_clause_deletes monitor_init_def)
        (simp add: finally_clause_def Let_def outer_except_def split: api.splits exn.splits)
  next
    case None
    obtain pr st where m: "monitor_session wld ?ses cs evs = (pr, st)"
      by (cases "monitor_session wld ?ses cs evs")
    have d: "filter is_delete (calls st) = []"
      using monitor_session_deletes [of wld ?ses cs evs] m cs by simp
    show ?thesis
      using s w a o None m d
      by (cases pr)
        (simp_all add: scan_submit_def finally_clause_def Let_def report_def outer_except_def
          split: api.splits exn.splits option.splits)
  qed
qed

lemma scan_submit_early:
  "scan_reply wld = Rejected v \<or> w \<le> 0 \<Longrightarrow>
     scan_submit wld w filename evs =
       (case scan_reply wld of
          Rejected u \<Rightarrow> (ExitClick (Text u), monitor_init no_scan [ApiScan])
        | Ok sid \<Rightarrow> (Returned, monitor_init (first_scan sid) [ApiScan]))"
  by (auto simp add: scan_submit_def finally_clause_def split: api.splits)

lemma scan_submit_no_alert:
  "scan_reply wld = Ok sid \<Longrightarrow> 0 < w \<Longrightarrow> alert_reply wld = Rejected v \<Longrightarrow>
     scan_submit wld w filename evs =
       (ExitClick (Text v), monitor_init (first_scan sid) [ApiScan, ApiCreateAlert])"
  by (simp add: scan_submit_def finally_clause_def)

text \<open>
  Claim C2. Once the command has ended, by whichever path (the loop finished, a
  \<open>ClickException\<close>, an \<open>APIError\<close>, any other exception, \<open>KeyboardInterrupt\<close>), and an
  alert was created, exactly one call deletes an alert, and it deletes the alert that was
  created; while the loop is still listening no alert has been deleted. When the scan is
  rejected or \<open>wait\<close> is not positive, \<open>api.scan\<close> is the only call (no alert is created,
  none deleted); when \<open>api.create_alert\<close> is rejected no alert is deleted.
\<close>

theorem scan_submit_deletes_alert_once:
  "(fst (scan_submit wld w filename evs) \<noteq> Pending \<and> scan_reply wld = Ok sid \<and> 0 < w
      \<and> alert_reply wld = Ok aid \<longrightarrow>
      filter is_delete (calls (snd (scan_submit wld w filename evs))) = [ApiDeleteAlert aid])
   \<and> (fst (scan_submit wld w filename evs) = Pending \<longrightarrow>
      filter is_delete (calls (snd (scan_submit wld w filename evs))) = [])
   \<and> (scan_reply wld = Rejected v \<or> w \<le> 0 \<longrightarrow>
      fst (scan_submit wld w filename evs) \<noteq> Pending
      \<and> calls (snd (scan_submit wld w filename evs)) = [ApiScan])
   \<and> (scan_reply wld = Ok sid \<and> 0 < w \<and> alert_reply wld = Rejected v \<longrightarrow>
      fst (scan_submit wld w filename evs) = ExitClick (Text v)
      \<and> calls (snd (scan_submit wld w filename evs)) = [ApiScan, ApiCreateAlert])"
proof (intro conjI impI)
  assume h: "fst (scan_submit wld w filename evs) \<noteq> Pending \<and> scan_reply wld = Ok sid \<and> 0 < w
      \<and> alert_reply wld = Ok aid"
  then show "filter is_delete (calls (snd (scan_submit wld w filename evs))) = [ApiDeleteAlert aid]"
    using scan_submit_monitoring_deletes [of wld sid w aid filename evs] by simp
next
  assume p: "fst (scan_submit wld w filename evs) = Pending"
  show "filter is_delete (calls (snd (scan_submit wld w filename evs))) = []"
  proof (cases "scan_reply wld")
    case (Rejected u)
    then show ?thesis using scan_submit_early [of wld u w filename evs]
      by (simp add: monitor_init_def)
  next
    case (Ok sid')
    show ?thesis
    proof (cases "w \<le> 0")
      case True
      then show ?thesis using scan_submit_early [of wld v w filename evs] Ok
        by (simp add: monitor_init_def)
    next
      case False
      show ?thesis
      proof (cases "alert_reply wld")
        case (Rejected u)
        then show ?thesis
          using scan_submit_no_alert [of wld sid' w u filename evs] \<open>scan_reply wld = Ok sid'\<close> False
          by (simp add: monitor_init_def)
      next
        case (Ok aid')
        then show ?thesis
          using scan_submit_monitoring_deletes [of wld sid' w aid' filename evs]
            \<open>scan_reply wld = Ok sid'\<close> False p
          by simp
      qed
    qed
  qed
next
  assume e: "scan_reply wld = Rejected v \<or> w \<le> 0"
  from scan_submit_early [OF e, of filename evs]
  show "fst (scan_submit wld w filename evs) \<noteq> Pending"
    by (simp split: api.splits)
  from scan_submit_early [OF e, of filename evs]
  show "calls (snd (scan_submit wld w filename evs)) = [ApiScan]"
    by (simp add: monitor_init_def split: api.splits)
next
  assume r: "scan_reply wld = Ok sid \<and> 0 < w \<and> alert_reply wld = Rejected v"
  then show "fst (scan_submit wld w filename evs) = ExitClick (Text v)"
    using scan_submit_no_alert [of wld sid w v filename evs] by simp
  from r show "calls (snd (scan_submit wld w filename evs)) = [ApiScan, ApiCreateAlert]"
    using scan_submit_no_alert [of wld sid w v filename evs] by (simp add: monitor_init_def)
qed

lemma str_nat_small: "n < 10 \<Longrightarrow> str_nat n = [digit_char n]"
  by (simp add: str_nat.simps)

lemma str_nat_big: "\<not> n < 10 \<Longrightarrow> str_nat n = str_nat (n div 10) @ [digit_char (n mod 10)]"
  by (subst str_nat.simps) simp

text \<open>A session ended by \<open>KeyboardInterrupt\<close>.\<close>

theorem scan_submit_deletes_alert_once_witness:
  "fst (scan_submit world_ok 20 '''' [ChanFails KeyboardInterrupt]) = ExitUncaught KeyboardInterrupt
   \<and> scan_reply world_ok = Ok ''scan1'' \<and> (0::int) < 20 \<and> alert_reply world_ok = Ok ''alert1''
   \<and> calls (snd (scan_submit world_ok 20 '''' [ChanFails KeyboardInterrupt])) =
       [ApiScan, ApiCreateAlert, ApiStreamAlert ''alert1'' 20, ApiDeleteAlert ''alert1'']
   \<and> filter is_delete (calls (snd (scan_submit world_ok 20 '''' [ChanFails KeyboardInterrupt]))) =
       [ApiDeleteAlert ''alert1'']"
proof -
  have e: "scan_submit world_ok 20 '''' [ChanFails KeyboardInterrupt] =
     (ExitUncaught KeyboardInterrupt,
      monitor_init (first_scan ''scan1'')
        [ApiScan, ApiCreateAlert, ApiStreamAlert ''alert1'' 20, ApiDeleteAlert ''alert1''])"
    by (simp add: scan_submit_def world_ok_def host_name_def open_output_def strip_def monitor_session_def
        monitor_init_def reopen_def called_def finally_clause_def outer_except_def Let_def)
  from scan_submit_deletes_alert_once [of world_ok 20 "''''" "[ChanFails KeyboardInterrupt]"
      "''scan1''" "''alert1''" "''none''"] e
  show ?thesis by (simp add: world_ok_def host_name_def monitor_init_def)
qed

lemma monitor_loop_skip:
  "\<not> truthy (banner_ip b) \<Longrightarrow>
   monitor_loop wld ses st (pre @ Recv b # post) = monitor_loop wld ses st (pre @ post)"
  by (simp add: monitor_loop_append [of wld ses st pre] on_banner_def
      split: prod.splits progress.splits)

text \<open>
  Claim C7. A banner with neither \<open>ip\<close> nor \<open>ipv6\<close> leaves no trace: wherever it arrives
  in the sequence of channel events, the command ends (or goes on) as it does without it,
  with the same table, cache and calls.
\<close>

theorem scan_submit_ignores_banner_without_ip:
  assumes "ip b = None" and "ipv6 b = None"
  shows "scan_submit wld w filename (pre @ Recv b # post) = scan_submit wld w filename (pre @ post)"
proof -
  have "\<not> truthy (banner_ip b)" using assms by (simp add: banner_ip_def)
  then have sk: "\<And>ses cs. monitor_session wld ses cs (pre @ Recv b # post) =
      monitor_session wld ses cs (pre @ post)"
    by (simp add: monitor_session_def monitor_loop_skip)
  show ?thesis
    unfolding scan_submit_def sk by (rule refl)
qed

text \<open>Such a banner between a banner and a time-out.\<close>

theorem scan_submit_ignores_banner_without_ip_witness:
  "ip rec_anon = None \<and> ipv6 rec_anon = None
   \<and> scan_submit world_ok 20 '''' ([Recv rec1] @ Recv rec_anon # [ChanFails SocketTimeout]) =
     scan_submit world_ok 20 '''' ([Recv rec1] @ [ChanFails SocketTimeout])
   \<and> fst (scan_submit world_ok 20 '''' ([Recv rec1] @ Recv rec_anon # [ChanFails SocketTimeout])) = Pending"
proof -
  have a: "ip rec_anon = None" "ipv6 rec_anon = None" by (simp_all add: rec_anon_def)
  have p: "fst (scan_submit world_ok 20 '''' [Recv rec1, ChanFails SocketTimeout]) = Pending"
    by (simp add: scan_submit_def world_ok_def host_name_def open_output_def strip_def monitor_session_def
        monitor_init_def reopen_def called_def Let_def on_banner_def group_banner_def
        check_scan_def on_socket_timeout_def banner_ip_def rec1_def)
  from scan_submit_ignores_banner_without_ip [OF a, of world_ok 20 "''''" "[Recv rec1]" "[ChanFails SocketTimeout]"]
  show ?thesis using a p by simp
qed

text \<open>
  Claim C8, where the code differs. With \<open>wait = 20\<close>, a \<open>socket.timeout\<close> after 5 seconds
  keeps the session listening, and the channel is opened again at once: no sleep lies
  between the two \<open>api.stream.alert\<close> calls. After a \<open>shodan.APIError\<close> at the same moment
  the loop sleeps half a second first.
\<close>

theorem scan_socket_timeout_reconnects_without_pause:
  "monitor_session world_ok ses20 [] [ChanFails SocketTimeout] =
     (Listening, (monitor_init (first_scan ''scan1'')
                    [ApiStreamAlert ''alert1'' 20, ApiStreamAlert ''alert1'' 20])\<lparr>reads := 1\<rparr>)
   \<and> monitor_session world_ok ses20 [] [ChanFails (APIError ''timed out'')] =
     (Listening, (monitor_init (first_scan ''scan1'') [ApiStreamAlert ''alert1'' 20, TimeSleep (1 / 2),
                               ApiStreamAlert ''alert1'' 20])\<lparr>reads := 1\<rparr>)"
  by (simp add: monitor_session_def monitor_init_def reopen_def called_def world_ok_def host_name_def ses20_def
      on_socket_timeout_def on_api_error_def Let_def)

text \<open>The handler of \<open>socket.timeout\<close> in general: before \<open>wait\<close> the session goes on, from \<open>wait\<close> on it is finished.\<close>

lemma scan_socket_timeout_cases:
  assumes "monitor_session wld ses cs pre = (Listening, st)"
  shows "monitor_session wld ses cs (pre @ [ChanFails SocketTimeout]) =
     (if clock wld (reads st) < real_of_int (wait ses)
      then (Listening, reopen ses (st\<lparr>reads := Suc (reads st)\<rparr>))
      else (Finished, st\<lparr>reads := Suc (reads st), is_done := True\<rparr>))"
  using assms
  by (simp add: monitor_session_def monitor_loop_append on_socket_timeout_def Let_def)

text \<open>
  Claim C9 as stated fails: 61 seconds after the start, with a scan whose status is
  \<open>DONE\<close>, a banner without \<open>ip\<close> and \<open>ipv6\<close> arrives; the status is not polled and the
  session goes on listening.
\<close>

theorem scan_no_poll_without_identified_banner:
  "clock world_done 0 = 61
   \<and> status_reply world_done 0 = Ok \<lparr>dict_id = Some ''scan1'', dict_status = Some ''DONE''\<rparr>
   \<and> monitor_session world_done ses300 [] [Recv rec_anon] =
       (Listening, monitor_init (first_scan ''scan1'') [ApiStreamAlert ''alert1'' 300])
   \<and> ApiScanStatus ''scan1'' \<notin> set (calls (snd (monitor_session world_done ses300 [] [Recv rec_anon])))"
  by (simp add: monitor_session_def monitor_init_def reopen_def called_def world_done_def host_name_def ses300_def
      on_banner_def banner_ip_def rec_anon_def Let_def)

lemma on_banner_identified:
  assumes "truthy (banner_ip b)" and "port b = Some p"
    and "cache st (cache_key_of (banner_ip b) p) \<noteq> None \<or> get_ip wld b \<noteq> None"
  shows "\<exists>st1. group_banner wld st b = Next st1 \<and> calls st1 = calls st
     \<and> reads st1 = reads st \<and> polls st1 = polls st \<and> is_done st1 = is_done st
     \<and> scan st1 = scan st
     \<and> on_banner wld st b = check_scan wld st1"
  using assms
  by (auto simp add: on_banner_def group_banner_def Let_def split: option.splits)

text \<open>
  Claim C9, as the code has it. After a banner with ip (or ipv6) and port has been
  grouped, the clock is read. If it reads 60 seconds or more, the status is polled, for
  the \<open>id\<close> of the current \<open>scan\<close> dictionary: if the answer is \<open>DONE\<close> the session is
  finished at that banner, whatever \<open>wait\<close> is and whatever the channel would bring next;
  with another status the session goes on, and \<open>scan\<close> is the answer. If the clock reads
  less than 60 seconds nothing is polled. A banner without ip and ipv6 leaves the
  session as it is: nothing is polled for it.
\<close>

theorem scan_poll_after_identified_banner:
  assumes run: "monitor_session wld ses cs pre = (Listening, st)"
    and ident: "truthy (banner_ip b)" "port b = Some p"
      "cache st (cache_key_of (banner_ip b) p) \<noteq> None \<or> get_ip wld b \<noteq> None"
    and cur: "dict_id (scan st) = Some i"
  shows "(60 \<le> clock wld (reads st) \<and> status_reply wld (polls st) = Ok d
            \<and> dict_status d = Some ''DONE'' \<longrightarrow>
            fst (monitor_session wld ses cs (pre @ Recv b # rest)) = Finished
          \<and> calls (snd (monitor_session wld ses cs (pre @ Recv b # rest))) =
              calls st @ [ApiScanStatus i])
       \<and> (60 \<le> clock wld (reads st) \<and> status_reply wld (polls st) = Ok d
            \<and> dict_status d = Some status \<and> status \<noteq> ''DONE'' \<longrightarrow>
            fst (monitor_session wld ses cs (pre @ [Recv b])) = Listening
          \<and> calls (snd (monitor_session wld ses cs (pre @ [Recv b]))) =
              calls st @ [ApiScanStatus i]
          \<and> scan (snd (monitor_session wld ses cs (pre @ [Recv b]))) = d)
       \<and> (clock wld (reads st) < 60 \<longrightarrow>
            fst (monitor_session wld ses cs (pre @ [Recv b])) = Listening
          \<and> calls (snd (monitor_session wld ses cs (pre @ [Recv b]))) = calls st)
       \<and> (\<not> truthy (banner_ip b') \<longrightarrow>
            monitor_session wld ses cs (pre @ [Recv b']) = (Listening, st))"
proof -
  from on_banner_identified [OF ident] obtain st1 where g:
    "calls st1 = calls st" "reads st1 = reads st" "polls st1 = polls st" "scan st1 = scan st"
    "on_banner wld st b = check_scan wld st1"
    by blast
  have step: "\<And>evs. monitor_session wld ses cs (pre @ Recv b # evs) =
      (case check_scan wld st1 of
        Next st2 \<Rightarrow> monitor_loop wld ses st2 evs
      | Break st2 \<Rightarrow> (Finished, st2)
      | Throw e st2 \<Rightarrow>
          (case handler wld ses st2 e of
             (Listening, st3) \<Rightarrow> monitor_loop wld ses (reopen ses st3) evs
           | r \<Rightarrow> r))"
    using run g(5) by (simp add: monitor_session_def monitor_loop_append)
  have skip: "\<not> truthy (banner_ip b') \<longrightarrow>
      monitor_session wld ses cs (pre @ [Recv b']) = (Listening, st)"
    using run by (simp add: monitor_session_def monitor_loop_append on_banner_def)
  show ?thesis
    using g(1,2,3,4) cur skip
    by (auto simp add: step check_scan_def Let_def)
qed

text \<open>\<open>wait = 300\<close>, a first banner at 61 seconds, status \<open>DONE\<close>.\<close>

theorem scan_poll_after_identified_banner_witness:
  "monitor_session world_done ses300 [] [] =
     (Listening, reopen ses300 (monitor_init (first_scan ''scan1'') []))
   \<and> truthy (banner_ip rec1) \<and> port rec1 = Some (PInt 80) \<and> get_ip world_done rec1 \<noteq> None
   \<and> dict_id (scan (reopen ses300 (monitor_init (first_scan ''scan1'') []))) = Some ''scan1''
   \<and> 60 \<le> clock world_done (reads (reopen ses300 (monitor_init (first_scan ''scan1'') [])))
   \<and> status_reply world_done (polls (reopen ses300 (monitor_init (first_scan ''scan1'') []))) =
        Ok \<lparr>dict_id = Some ''scan1'', dict_status = Some ''DONE''\<rparr>
   \<and> fst (monitor_session world_done ses300 [] ([] @ Recv rec1 # [Recv rec3])) = Finished
   \<and> calls (snd (monitor_session world_done ses300 [] ([] @ Recv rec1 # [Recv rec3]))) =
        [ApiStreamAlert ''alert1'' 300, ApiScanStatus ''scan1'']
   \<and> \<not> truthy (banner_ip rec_anon)
   \<and> monitor_session world_done ses300 [] ([] @ [Recv rec_anon]) =
        (Listening, reopen ses300 (monitor_init (first_scan ''scan1'') []))"
proof -
  let ?st = "reopen ses300 (monitor_init (first_scan ''scan1'') [])"
  have run: "monitor_session world_done ses300 [] [] = (Listening, ?st)"
    by (simp add: monitor_session_def ses300_def)
  have i: "truthy (banner_ip rec1)" "port rec1 = Some (PInt 80)"
    "cache ?st (cache_key_of (banner_ip rec1) (PInt 80)) \<noteq> None \<or> get_ip world_done rec1 \<noteq> None"
    by (simp_all add: banner_ip_def rec1_def world_done_def host_name_def)
  have c: "dict_id (scan ?st) = Some ''scan1''"
    by (simp add: reopen_def called_def monitor_init_def first_scan_def)
  have e: "60 \<le> clock world_done (reads ?st)"
    "status_reply world_done (polls ?st) = Ok \<lparr>dict_id = Some ''scan1'', dict_status = Some ''DONE''\<rparr>"
    "get_ip world_done rec1 \<noteq> None"
    "\<not> truthy (banner_ip rec_anon)"
    by (simp_all add: world_done_def host_name_def rec1_def rec_anon_def banner_ip_def)
  from scan_poll_after_identified_banner [OF run i c,
      where rest = "[Recv rec3]" and b' = rec_anon
        and d = "\<lparr>dict_id = Some ''scan1'', dict_status = Some ''DONE''\<rparr>"] e
  show ?thesis using run i(1,2) c
    by (simp add: monitor_init_def ses300_def)
qed

lemma received_append: "received (xs @ ys) = received xs @ received ys"
  by (induction xs rule: received.induct) simp_all

lemma first_keyed_snoc:
  "first_keyed wld k (bs @ [b]) =
     (case first_keyed wld k bs of
        Some x \<Rightarrow> Some x
      | None \<Rightarrow> if keyed wld b \<and> banner_key b = k then Some b else None)"
  unfolding first_keyed_def by (induction bs) (auto split: option.splits)

lemma first_keyed_Some:
  "first_keyed wld k bs = Some b0 \<Longrightarrow> b0 \<in> set bs \<and> keyed wld b0 \<and> banner_key b0 = k"
  unfolding first_keyed_def by (induction bs) (auto split: if_splits)

lemma first_keyed_None:
  "first_keyed wld k bs = None \<longleftrightarrow> \<not> (\<exists>b\<in>set bs. keyed wld b \<and> banner_key b = k)"
  unfolding first_keyed_def by (auto simp add: find_None_iff)

lemma table_inv_cong:
  "hosts st' = hosts st \<Longrightarrow> cache st' = cache st \<Longrightarrow> table_inv wld bs st' = table_inv wld bs st"
  by (simp add: table_inv_def lookup_host_def)

text \<open>A banner that leaves table and cache as they are, and is no first of its key.\<close>

lemma table_inv_unchanged:
  assumes inv: "table_inv wld bs st"
    and old: "keyed wld b \<longrightarrow> cache st (banner_key b) \<noteq> None"
  shows "table_inv wld (bs @ [b]) st"
proof -
  have fs: "first_keyed wld k (bs @ [b]) = first_keyed wld k bs" for k
  proof (cases "first_keyed wld k bs")
    case None
    have "\<not> (keyed wld b \<and> banner_key b = k)"
    proof
      assume a: "keyed wld b \<and> banner_key b = k"
      then have "cache st k \<noteq> None" using old by auto
      then have "\<exists>b'\<in>set bs. keyed wld b' \<and> banner_key b' = k"
        using inv by (simp add: table_inv_def)
      then show False using None by (simp add: first_keyed_None)
    qed
    then show ?thesis using None by (simp add: first_keyed_snoc)
  next
    case (Some x)
    then show ?thesis by (simp add: first_keyed_snoc)
  qed
  have c: "(\<exists>b'\<in>set (bs @ [b]). keyed wld b' \<and> banner_key b' = k)
        \<longleftrightarrow> (\<exists>b'\<in>set bs. keyed wld b' \<and> banner_key b' = k)" for k
    using fs [of k] first_keyed_None [of wld k "bs @ [b]"] first_keyed_None [of wld k bs]
    by metis
  show ?thesis
    using inv unfolding table_inv_def fs c by simp
qed

lemma table_inv_added:
  assumes inv: "table_inv wld bs st"
    and con: "consistent wld (set (bs @ [b]))"
    and tr: "truthy (banner_ip b)" and p: "port b = Some p" and h: "get_ip wld b = Some h"
    and new: "cache st (cache_key_of (banner_ip b) p) = None"
  shows "table_inv wld (bs @ [b])
           (st\<lparr>hosts := (hosts st)(h \<mapsto> (case hosts st h of None \<Rightarrow> Map.empty | Some m \<Rightarrow> m)(p \<mapsto> b)),
               cache := (cache st)(cache_key_of (banner_ip b) p \<mapsto> True)\<rparr>)"
    (is "table_inv wld _ ?st'")
proof -
  let ?k = "cache_key_of (banner_ip b) p"
  have idb: "keyed wld b" and keyb: "banner_key b = ?k"
    using tr p h by (simp_all add: keyed_def banner_key_def)
  have "\<not> (\<exists>b'\<in>set bs. keyed wld b' \<and> banner_key b' = ?k)"
    using inv new unfolding table_inv_def by blast
  then have none: "first_keyed wld ?k bs = None"
    by (simp add: first_keyed_None)
  have fs: "first_keyed wld k (bs @ [b]) = (if k = ?k then Some b else first_keyed wld k bs)" for k
    using none idb keyb by (auto simp add: first_keyed_snoc split: option.splits)
  have lk: "lookup_host ?st' h' p' = (if h' = h \<and> p' = p then Some b else lookup_host st h' p')"
    for h' p'
    by (auto simp add: lookup_host_def split: option.splits)
  have i1: "cache ?st' k \<noteq> None \<longleftrightarrow> (\<exists>b'\<in>set (bs @ [b]). keyed wld b' \<and> banner_key b' = k)" for k
    using inv idb keyb by (auto simp add: table_inv_def)
  have i2: "get_ip wld b' = Some h' \<and> port b' = Some p' \<and> first_keyed wld (banner_key b') (bs @ [b]) = Some b'"
    if l: "lookup_host ?st' h' p' = Some b'" for h' p' b'
  proof (cases "h' = h \<and> p' = p")
    case True
    then have "b' = b" using l by (simp add: lk)
    then show ?thesis using True h p keyb by (simp add: fs)
  next
    case False
    then have l0: "lookup_host st h' p' = Some b'" using l by (auto simp add: lk split: if_splits)
    then have g: "get_ip wld b' = Some h'" "port b' = Some p'"
      "first_keyed wld (banner_key b') bs = Some b'"
      using inv by (simp_all add: table_inv_def)
    have "banner_key b' \<noteq> ?k" using g(3) none by auto
    then show ?thesis using g by (simp add: fs)
  qed
  have i3: "\<exists>h' p'. get_ip wld b0 = Some h' \<and> port b0 = Some p' \<and> lookup_host ?st' h' p' = Some b0"
    if f: "first_keyed wld k (bs @ [b]) = Some b0" for k b0
  proof (cases "k = ?k")
    case True
    then have "b0 = b" using f by (simp add: fs)
    then show ?thesis using h p by (simp add: lk)
  next
    case False
    then have f0: "first_keyed wld k bs = Some b0" using f by (simp add: fs)
    then obtain h' p' where g: "get_ip wld b0 = Some h'" "port b0 = Some p'"
      "lookup_host st h' p' = Some b0"
      using inv unfolding table_inv_def by blast
    have m: "b0 \<in> set bs" "keyed wld b0" "banner_key b0 = k"
      using first_keyed_Some [OF f0] by simp_all
    have "\<not> (h' = h \<and> p' = p)"
    proof
      assume e: "h' = h \<and> p' = p"
      have b0in: "b0 \<in> set (bs @ [b])" using m(1) by simp
      have bin: "b \<in> set (bs @ [b])" by simp
      have "keyed wld b0 \<and> keyed wld b \<and> get_ip wld b0 = get_ip wld b
          \<and> port b0 = port b"
        using m(2) idb g(1,2) h p e by simp
      then have "banner_key b0 = banner_key b"
        using con [unfolded consistent_def, rule_format, OF b0in bin] by simp
      then show False using m(3) keyb False by simp
    qed
    then show ?thesis using g by (auto simp add: lk)
  qed
  show ?thesis
    unfolding table_inv_def
  proof (intro conjI allI impI)
    fix k show "(cache ?st' k \<noteq> None) = (\<exists>b'\<in>set (bs @ [b]). keyed wld b' \<and> banner_key b' = k)"
      by (rule i1)
  next
    fix h' p' b' assume "lookup_host ?st' h' p' = Some b'"
    from i2 [OF this] show "get_ip wld b' = Some h'" "port b' = Some p'"
      "first_keyed wld (banner_key b') (bs @ [b]) = Some b'"
      by simp_all
  next
    fix k b0 assume "first_keyed wld k (bs @ [b]) = Some b0"
    from i3 [OF this]
    show "\<exists>h' p'. get_ip wld b0 = Some h' \<and> port b0 = Some p' \<and> lookup_host ?st' h' p' = Some b0" .
  qed
qed

lemma group_banner_inv:
  assumes inv: "table_inv wld bs st"
    and con: "consistent wld (set (bs @ [b]))"
    and tr: "truthy (banner_ip b)"
  shows "table_inv wld (bs @ [b]) (flow_state (group_banner wld st b))"
proof (cases "port b")
  case None
  then have "\<not> keyed wld b" by (simp add: keyed_def)
  then have "table_inv wld (bs @ [b]) st" using table_inv_unchanged [OF inv] by simp
  then show ?thesis using None by (simp add: group_banner_def)
next
  case (Some p)
  show ?thesis
  proof (cases "cache st (cache_key_of (banner_ip b) p) = None")
    case False
    then have "table_inv wld (bs @ [b]) st"
      using table_inv_unchanged [OF inv, of b] Some by (simp add: banner_key_def)
    then show ?thesis using Some False by (auto simp add: group_banner_def Let_def)
  next
    case True
    show ?thesis
    proof (cases "get_ip wld b")
      case None
      then have "\<not> keyed wld b" by (simp add: keyed_def)
      then have "table_inv wld (bs @ [b]) st" using table_inv_unchanged [OF inv] by simp
      then show ?thesis using Some True None by (simp add: group_banner_def Let_def)
    next
      case (Some h)
      from table_inv_added [OF inv con tr \<open>port b = Some p\<close> Some True]
      show ?thesis using \<open>port b = Some p\<close> Some True by (simp add: group_banner_def Let_def)
    qed
  qed
qed

lemma check_scan_tables:
  "hosts (flow_state (check_scan wld st)) = hosts st"
  "cache (flow_state (check_scan wld st)) = cache st"
  by (simp_all add: check_scan_def Let_def split: api.splits option.splits)

lemma handler_tables:
  "hosts (snd (handler wld ses st e)) = hosts st"
  "cache (snd (handler wld ses st e)) = cache st"
  by (cases e; simp add: on_api_error_def on_socket_timeout_def Let_def
        split: api.splits option.splits)+

lemma on_banner_inv:
  assumes inv: "table_inv wld bs st"
    and con: "consistent wld (set (bs @ [b]))"
  shows "table_inv wld (bs @ [b]) (flow_state (on_banner wld st b))"
proof (cases "truthy (banner_ip b)")
  case False
  then have "\<not> keyed wld b" by (simp add: keyed_def)
  then have "table_inv wld (bs @ [b]) st" using table_inv_unchanged [OF inv] by simp
  then show ?thesis using False by (simp add: on_banner_def)
next
  case True
  have g: "table_inv wld (bs @ [b]) (flow_state (group_banner wld st b))"
    using group_banner_inv [OF inv con True] .
  show ?thesis
  proof (cases "group_banner wld st b")
    case (Next st1)
    have "table_inv wld (bs @ [b]) (flow_state (check_scan wld st1))"
      using g Next table_inv_cong [OF check_scan_tables [of wld st1], of wld "bs @ [b]"] by simp
    then show ?thesis using True Next by (simp add: on_banner_def)
  next
    case (Break st1)
    then show ?thesis using g True by (simp add: on_banner_def)
  next
    case (Throw e st1)
    then show ?thesis using g True by (simp add: on_banner_def)
  qed
qed

lemma consistent_mono: "consistent wld B \<Longrightarrow> A \<subseteq> B \<Longrightarrow> consistent wld A"
  unfolding consistent_def by blast

lemma monitor_loop_listening_prefix:
  "fst (monitor_loop wld ses st (xs @ ys)) = Listening \<Longrightarrow> fst (monitor_loop wld ses st xs) = Listening"
  by (auto simp add: monitor_loop_append split: prod.splits progress.splits)

lemma handled_tables:
  "hosts (snd (case handler wld ses s x of
                 (Listening, st2) \<Rightarrow> monitor_loop wld ses (reopen ses st2) [] | r \<Rightarrow> r)) = hosts s"
  "cache (snd (case handler wld ses s x of
                 (Listening, st2) \<Rightarrow> monitor_loop wld ses (reopen ses st2) [] | r \<Rightarrow> r)) = cache s"
proof -
  obtain pr st2 where h: "handler wld ses s x = (pr, st2)" by (cases "handler wld ses s x")
  have "hosts st2 = hosts s" "cache st2 = cache s"
    using handler_tables [of wld ses s x] h by simp_all
  then show
    "hosts (snd (case handler wld ses s x of
                 (Listening, st2) \<Rightarrow> monitor_loop wld ses (reopen ses st2) [] | r \<Rightarrow> r)) = hosts s"
    "cache (snd (case handler wld ses s x of
                 (Listening, st2) \<Rightarrow> monitor_loop wld ses (reopen ses st2) [] | r \<Rightarrow> r)) = cache s"
    using h by (cases pr; simp)+
qed

lemma monitor_step_tables:
  "hosts (snd (monitor_loop wld ses st [Recv b])) = hosts (flow_state (on_banner wld st b))"
  "cache (snd (monitor_loop wld ses st [Recv b])) = cache (flow_state (on_banner wld st b))"
  "hosts (snd (monitor_loop wld ses st [ChanFails e])) = hosts st"
  "cache (snd (monitor_loop wld ses st [ChanFails e])) = cache st"
  "hosts (snd (monitor_loop wld ses st [ChanEnds])) = hosts st"
  "cache (snd (monitor_loop wld ses st [ChanEnds])) = cache st"
proof -
  show "hosts (snd (monitor_loop wld ses st [Recv b])) = hosts (flow_state (on_banner wld st b))"
  proof (cases "on_banner wld st b")
    case (Next st1)
    then show ?thesis by simp
  next
    case (Break st1)
    then show ?thesis by simp
  next
    case (Throw x st1)
    then show ?thesis using handled_tables(1) [of wld ses st1 x] by simp
  qed
  show "cache (snd (monitor_loop wld ses st [Recv b])) = cache (flow_state (on_banner wld st b))"
  proof (cases "on_banner wld st b")
    case (Next st1)
    then show ?thesis by simp
  next
    case (Break st1)
    then show ?thesis by simp
  next
    case (Throw x st1)
    then show ?thesis using handled_tables(2) [of wld ses st1 x] by simp
  qed
  show "hosts (snd (monitor_loop wld ses st [ChanFails e])) = hosts st"
    using handled_tables(1) [of wld ses st e] by simp
  show "cache (snd (monitor_loop wld ses st [ChanFails e])) = cache st"
    using handled_tables(2) [of wld ses st e] by simp
  show "hosts (snd (monitor_loop wld ses st [ChanEnds])) = hosts st"
    "cache (snd (monitor_loop wld ses st [ChanEnds])) = cache st"
    by simp_all
qed

lemma monitor_step_inv:
  assumes inv: "table_inv wld bs st"
    and con: "consistent wld (set (bs @ received [e]))"
  shows "table_inv wld (bs @ received [e]) (snd (monitor_loop wld ses st [e]))"
proof (cases e)
  case (Recv b)
  have "table_inv wld (bs @ [b]) (flow_state (on_banner wld st b))"
    using on_banner_inv [OF inv, of b] con Recv by simp
  then show ?thesis
    using Recv table_inv_cong [OF monitor_step_tables(1,2) [of wld ses st b], of wld "bs @ [b]"]
    by simp
next
  case (ChanFails x)
  then show ?thesis
    using inv table_inv_cong [OF monitor_step_tables(3,4) [of wld ses st x], of wld bs] by simp
next
  case ChanEnds
  then show ?thesis
    using inv table_inv_cong [OF monitor_step_tables(5,6) [of wld ses st], of wld bs] by simp
qed

lemma monitor_loop_inv:
  assumes start: "table_inv wld [] st"
  shows "consistent wld (set (received evs)) \<Longrightarrow>
     evs = [] \<or> fst (monitor_loop wld ses st (butlast evs)) = Listening \<Longrightarrow>
     table_inv wld (received evs) (snd (monitor_loop wld ses st evs))"
proof (induction evs rule: rev_induct)
  case Nil
  then show ?case using start by simp
next
  case (snoc e xs)
  have l: "fst (monitor_loop wld ses st xs) = Listening" using snoc.prems(2) by simp
  have pre: "xs = [] \<or> fst (monitor_loop wld ses st (butlast xs)) = Listening"
  proof (cases "xs = []")
    case True
    then show ?thesis by simp
  next
    case False
    then have "xs = butlast xs @ [last xs]" by simp
    then have "fst (monitor_loop wld ses st (butlast xs @ [last xs])) = Listening" using l by simp
    then show ?thesis using monitor_loop_listening_prefix by blast
  qed
  have c: "consistent wld (set (received xs))"
    using consistent_mono [OF snoc.prems(1)] by (simp add: received_append)
  obtain st1 where r: "monitor_loop wld ses st xs = (Listening, st1)"
    using l by (cases "monitor_loop wld ses st xs") simp
  have i: "table_inv wld (received xs) st1" using snoc.IH [OF c pre] r by simp
  have "table_inv wld (received xs @ received [e]) (snd (monitor_loop wld ses st1 [e]))"
    using monitor_step_inv [OF i] snoc.prems(1) by (simp add: received_append)
  then show ?case by (simp add: monitor_loop_append r received_append)
qed

lemma table_inv_init: "table_inv wld [] (reopen ses (monitor_init sc cs))"
  by (simp add: table_inv_def lookup_host_def monitor_init_def first_keyed_def)

lemma digit_cases: "d < 10 \<Longrightarrow> d \<in> {0, 1, 2, 3, 4, 5, 6, 7, 8, 9 :: nat}"
  by auto

lemma digit_char_val: "d < 10 \<Longrightarrow> digit_val (digit_char d) = d"
  using digit_cases [of d] by (auto simp add: digit_char_def digit_val_def)

lemma digit_char_in: "d < 10 \<Longrightarrow> digit_char d \<in> set ''0123456789''"
  using digit_cases [of d] by (auto simp add: digit_char_def)

lemma decode_snoc: "decode (s @ [c]) = 10 * decode s + digit_val c"
  by (simp add: decode_def)

lemma decode_str_nat: "decode (str_nat n) = n"
proof (induction n rule: str_nat.induct)
  case (1 n)
  show ?case
  proof (cases "n < 10")
    case True
    then show ?thesis by (simp add: str_nat_small decode_def digit_char_val)
  next
    case False
    then show ?thesis
      using "1.IH" by (simp add: str_nat_big decode_snoc digit_char_val)
  qed
qed

lemma str_nat_inj: "str_nat n = str_nat m \<Longrightarrow> n = m"
  using decode_str_nat by metis

lemma str_nat_digits: "set (str_nat n) \<subseteq> set ''0123456789''"
proof (induction n rule: str_nat.induct)
  case (1 n)
  show ?case
  proof (cases "n < 10")
    case True
    then show ?thesis using digit_char_in [of n] by (simp add: str_nat_small)
  next
    case False
    then show ?thesis
      using "1.IH" digit_char_in [of "n mod 10"] by (simp add: str_nat_big)
  qed
qed

lemma str_nat_not_empty: "str_nat n \<noteq> []"
  by (cases "n < 10") (simp_all add: str_nat_small str_nat_big)

lemma str_nat_no_minus: "CHR ''-'' \<notin> set (str_nat n)"
  using str_nat_digits [of n] by auto

lemma str_nat_no_colon: "CHR '':'' \<notin> set (str_nat n)"
  using str_nat_digits [of n] by auto

lemma str_int_inj: "str_int i = str_int j \<Longrightarrow> i = j"
proof -
  assume e: "str_int i = str_int j"
  have hd_digit: "hd (str_nat n) \<noteq> CHR ''-''" for n
    using str_nat_no_minus [of n] str_nat_not_empty [of n] by (cases "str_nat n") auto
  show "i = j"
  proof (cases "i < 0")
    case True
    show ?thesis
    proof (cases "j < 0")
      case jn: True
      then have "str_nat (nat (- i)) = str_nat (nat (- j))"
        using e True by (simp add: str_int_def)
      then have "nat (- i) = nat (- j)" by (rule str_nat_inj)
      then show ?thesis using True jn by simp
    next
      case False
      then have "CHR ''-'' # str_nat (nat (- i)) = str_nat (nat j)"
        using e True by (simp add: str_int_def)
      then have "hd (str_nat (nat j)) = CHR ''-''" by (metis list.sel(1))
      then show ?thesis using hd_digit by blast
    qed
  next
    case False
    show ?thesis
    proof (cases "j < 0")
      case True
      then have "str_nat (nat i) = CHR ''-'' # str_nat (nat (- j))"
        using e False by (simp add: str_int_def)
      then have "hd (str_nat (nat i)) = CHR ''-''" by (metis list.sel(1))
      then show ?thesis using hd_digit by blast
    next
      case jp: False
      then have "str_nat (nat i) = str_nat (nat j)"
        using e False by (simp add: str_int_def)
      then have "nat i = nat j" by (rule str_nat_inj)
      then show ?thesis using False jp by simp
    qed
  qed
qed

lemma str_int_no_colon: "CHR '':'' \<notin> set (str_int i)"
  using str_nat_no_colon by (simp add: str_int_def)

lemma takeWhile_until:
  "c \<notin> set zs \<Longrightarrow> takeWhile (\<lambda>x. x \<noteq> c) (zs @ c # ws) = zs"
  by (induction zs) auto

lemma split_at_last:
  assumes "xs @ c # ys = xs' @ c # ys'" and "c \<notin> set ys" and "c \<notin> set ys'"
  shows "xs = xs' \<and> ys = ys'"
proof -
  have t: "takeWhile (\<lambda>x. x \<noteq> c) (rev zs @ c # rev ws) = rev zs" if "c \<notin> set zs" for zs ws
    using that takeWhile_until [of c "rev zs" "rev ws"] by simp
  have "rev (xs @ c # ys) = rev (xs' @ c # ys')" using assms(1) by simp
  then have "rev ys @ c # rev xs = rev ys' @ c # rev xs'" by simp
  then have "takeWhile (\<lambda>x. x \<noteq> c) (rev ys @ c # rev xs) =
             takeWhile (\<lambda>x. x \<noteq> c) (rev ys' @ c # rev xs')" by simp
  then have "rev ys = rev ys'" using t [OF assms(2)] t [OF assms(3)] by simp
  then have y: "ys = ys'" by simp
  then show ?thesis using assms(1) by simp
qed

lemma table_by_key:
  assumes consumed: "evs = [] \<or> fst (monitor_session wld ses cs (butlast evs)) = Listening"
    and c: "consistent wld (set (received evs))"
  shows "table_inv wld (received evs) (snd (monitor_session wld ses cs evs))"
  using monitor_loop_inv [OF table_inv_init c, of ses ses "first_scan (scan_id ses)" cs] consumed
  by (simp add: monitor_session_def)

lemma cache_key_inj:
  assumes a: "is_ip a \<or> is_ipv6 a" and a': "is_ip a' \<or> is_ipv6 a'"
    and p: "is_port p" and p': "is_port p'"
    and e: "cache_key_of a p = cache_key_of a' p'"
  shows "a = a' \<and> p = p'"
proof -
  obtain q where q: "p = PInt q" using p by (cases p) simp_all
  obtain q' where q': "p' = PInt q'" using p' by (cases p') simp_all
  have "format_val a @ CHR '':'' # str_int q = format_val a' @ CHR '':'' # str_int q'"
    using e q q' by (simp add: cache_key_of_def)
  from split_at_last [OF this str_int_no_colon str_int_no_colon]
  have f: "format_val a = format_val a'" and s: "str_int q = str_int q'" by simp_all
  have pq: "p = p'" using s q q' str_int_inj by simp
  have col: "is_ipv6 v \<Longrightarrow> CHR '':'' \<in> set (format_val v)" for v
    by (cases v) simp_all
  have nocol: "is_ip v \<Longrightarrow> CHR '':'' \<notin> set (format_val v)" for v
    by (cases v) (simp_all add: str_int_no_colon)
  have "a = a'"
  proof (cases "is_ip a")
    case True
    then have "is_ip a'" using a' f col [of a'] nocol [of a] by auto
    then obtain n n' where "a = PInt n" "a' = PInt n'"
      using True by (cases a; cases a') simp_all
    then show ?thesis using f str_int_inj by simp
  next
    case False
    then have v6: "is_ipv6 a" using a by simp
    then have "is_ipv6 a'" using a' f col [of a] nocol [of a'] by auto
    then obtain t t' where "a = PStr t" "a' = PStr t'"
      using v6 by (cases a; cases a') simp_all
    then show ?thesis using f by simp
  qed
  then show ?thesis using pq by simp
qed

lemma well_formed_identity:
  assumes "well_formed b" and "record_identity b = Some (a, p)"
  shows "banner_ip b = a" and "port b = Some p" and "is_ip a \<or> is_ipv6 a" and "is_port p"
    and "truthy a" and "banner_key b = cache_key_of a p"
proof -
  show 1: "banner_ip b = a" and 2: "port b = Some p"
    using assms(2) by (auto simp add: record_identity_def banner_ip_def split: option.splits)
  show 3: "is_ip a \<or> is_ipv6 a" and 4: "is_port p"
    using assms by (auto simp add: record_identity_def well_formed_def split: option.splits)
  show "truthy a" using 3 by (cases a) auto
  show "banner_key b = cache_key_of a p" using 1 2 by (simp add: banner_key_def)
qed

lemma well_formed_keyed:
  assumes "well_formed b"
  shows "keyed wld b \<longleftrightarrow> record_identity b \<noteq> None \<and> get_ip wld b \<noteq> None"
proof (cases "record_identity b")
  case None
  then have "\<not> truthy (banner_ip b) \<or> port b = None"
    by (auto simp add: record_identity_def banner_ip_def split: option.splits)
  then show ?thesis using None by (auto simp add: keyed_def)
next
  case (Some i)
  obtain a p where i: "i = (a, p)" by (cases i)
  from well_formed_identity [OF assms Some [unfolded i]]
  show ?thesis using Some by (simp add: keyed_def)
qed

lemma well_formed_key_eq:
  assumes "well_formed b" "well_formed b'"
    and "record_identity b = Some i" "record_identity b' = Some i'"
  shows "banner_key b = banner_key b' \<longleftrightarrow> i = i'"
proof -
  obtain a p where i: "i = (a, p)" by (cases i)
  obtain a' p' where i': "i' = (a', p')" by (cases i')
  note w = well_formed_identity [OF assms(1) assms(3) [unfolded i]]
  note w' = well_formed_identity [OF assms(2) assms(4) [unfolded i']]
  show ?thesis
    using cache_key_inj [OF w(3) w'(3) w(4) w'(4)] w(6) w'(6) i i' by auto
qed

lemma first_keyed_is_first_seen:
  assumes wf: "\<forall>x\<in>set bs. well_formed x"
    and b: "well_formed b" "record_identity b = Some i"
  shows "first_keyed wld (banner_key b) bs = first_seen wld i bs"
  unfolding first_keyed_def first_seen_def
proof (rule find_cong [OF refl])
  fix x assume x: "x \<in> set bs"
  then have wx: "well_formed x" using wf by simp
  show "(keyed wld x \<and> banner_key x = banner_key b) =
        (record_identity x = Some i \<and> get_ip wld x \<noteq> None)"
  proof (cases "record_identity x")
    case None
    then show ?thesis using well_formed_keyed [OF wx, of wld] by simp
  next
    case (Some j)
    then show ?thesis
      using well_formed_keyed [OF wx, of wld] well_formed_key_eq [OF wx b(1) Some b(2)] by auto
  qed
qed

text \<open>
  Claim C6, as the code has it. Let the session have processed the channel events \<open>evs\<close>
  (it was still listening before the last of them), let every banner received be well
  formed (\<open>ip\<close> a non-zero integer, \<open>ipv6\<close> a text with a colon, \<open>port\<close> an integer), and
  let \<open>get_ip\<close> give banners of different identities at one port different host names.
  Then for every banner received that has an identity (ip or ipv6, and port) and a host
  name, the first such banner with that identity is in the table, at its host name and
  port; and every entry of the table is the first banner received with its identity. So
  the table has one entry for each identity, and a later banner never replaces it.
\<close>

theorem scan_table_first_seen_once:
  assumes consumed: "evs = [] \<or> fst (monitor_session wld ses cs (butlast evs)) = Listening"
    and wf: "\<forall>b\<in>set (received evs). well_formed b"
    and named: "\<forall>b\<in>set (received evs). \<forall>b'\<in>set (received evs).
        record_identity b \<noteq> None \<and> record_identity b' \<noteq> None
        \<and> get_ip wld b \<noteq> None \<and> get_ip wld b = get_ip wld b' \<and> port b = port b'
          \<longrightarrow> record_identity b = record_identity b'"
  shows "(\<forall>b\<in>set (received evs). \<forall>i. record_identity b = Some i \<and> get_ip wld b \<noteq> None \<longrightarrow>
            (\<exists>b0 h. first_seen wld i (received evs) = Some b0 \<and> get_ip wld b0 = Some h
               \<and> lookup_host (snd (monitor_session wld ses cs evs)) h (snd i) = Some b0))
       \<and> (\<forall>h p b'. lookup_host (snd (monitor_session wld ses cs evs)) h p = Some b' \<longrightarrow>
            get_ip wld b' = Some h \<and> port b' = Some p
            \<and> (\<exists>i. record_identity b' = Some i \<and> first_seen wld i (received evs) = Some b'))"
proof -
  let ?R = "received evs"
  let ?st = "snd (monitor_session wld ses cs evs)"
  have c: "consistent wld (set ?R)"
    unfolding consistent_def
  proof (intro ballI impI)
    fix b b' assume m: "b \<in> set ?R" "b' \<in> set ?R"
    assume k: "keyed wld b \<and> keyed wld b' \<and> get_ip wld b = get_ip wld b' \<and> port b = port b'"
    have wb: "well_formed b" "well_formed b'" using wf m by simp_all
    obtain i i' where i: "record_identity b = Some i" "record_identity b' = Some i'"
      using k well_formed_keyed [OF wb(1), of wld] well_formed_keyed [OF wb(2), of wld] by auto
    have g: "get_ip wld b \<noteq> None" using k by (simp add: keyed_def)
    have "record_identity b \<noteq> None \<and> record_identity b' \<noteq> None
        \<and> get_ip wld b \<noteq> None \<and> get_ip wld b = get_ip wld b' \<and> port b = port b'"
      using i k g by simp
    then have "record_identity b = record_identity b'"
      using named [rule_format, OF m] by blast
    then show "banner_key b = banner_key b'"
      using well_formed_key_eq [OF wb i] i by simp
  qed
  have inv: "table_inv wld ?R ?st" using table_by_key [OF consumed c] .
  show ?thesis
  proof (intro conjI ballI allI impI)
    fix b i assume m: "b \<in> set ?R" and r: "record_identity b = Some i \<and> get_ip wld b \<noteq> None"
    have wb: "well_formed b" using wf m by simp
    have k: "keyed wld b" using well_formed_keyed [OF wb, of wld] r by simp
    have fk: "first_keyed wld (banner_key b) ?R = first_seen wld i ?R"
      using first_keyed_is_first_seen [OF wf wb] r by simp
    have "first_keyed wld (banner_key b) ?R \<noteq> None"
      using m k by (auto simp add: first_keyed_None)
    then obtain b0 where f: "first_keyed wld (banner_key b) ?R = Some b0" by auto
    then obtain h p where g: "get_ip wld b0 = Some h" "port b0 = Some p"
      "lookup_host ?st h p = Some b0"
      using inv unfolding table_inv_def by blast
    have "record_identity b0 = Some i"
      using f fk unfolding first_seen_def by (auto simp add: find_Some_iff)
    then have "port b0 = Some (snd i)"
      by (auto simp add: record_identity_def split: option.splits)
    then have "p = snd i" using g(2) by simp
    then show "\<exists>b0 h. first_seen wld i ?R = Some b0 \<and> get_ip wld b0 = Some h
               \<and> lookup_host ?st h (snd i) = Some b0"
      using f fk g by auto
  next
    fix h p b' assume l: "lookup_host ?st h p = Some b'"
    then have g: "get_ip wld b' = Some h" "port b' = Some p"
      "first_keyed wld (banner_key b') ?R = Some b'"
      using inv unfolding table_inv_def by blast+
    show "get_ip wld b' = Some h" "port b' = Some p" using g by simp_all
    have m: "b' \<in> set ?R" "keyed wld b'" using first_keyed_Some [OF g(3)] by simp_all
    have wb: "well_formed b'" using wf m(1) by simp
    obtain i where i: "record_identity b' = Some i"
      using well_formed_keyed [OF wb, of wld] m(2) by auto
    show "\<exists>i. record_identity b' = Some i \<and> first_seen wld i ?R = Some b'"
      using first_keyed_is_first_seen [OF wf wb i, of wld] g(3) i by simp
  qed
qed

lemma str_examples:
  "str_int 16909060 = ''16909060''" "str_int 16909061 = ''16909061''"
  "str_int 84281096 = ''84281096''" "str_int 80 = ''80''" "str_int 443 = ''443''"
  "str_int 22 = ''22''"
  by (simp_all add: str_int_def str_nat_small str_nat_big digit_char_def)

lemmas run_defs = monitor_session_def monitor_init_def first_scan_def reopen_def called_def
  ses20_def on_banner_def group_banner_def check_scan_def Let_def banner_ip_def cache_key_of_def
  world_ok_def host_name_def str_examples lookup_host_def

text \<open>
  Two banners of one host and port, two of another host at two ports, and one with an
  ipv6 address.
\<close>

theorem scan_table_first_seen_once_witness:
  "fst (monitor_session world_ok ses20 [] [Recv rec1, Recv rec2, Recv rec3, Recv rec4]) = Listening
   \<and> well_formed rec1 \<and> well_formed rec2 \<and> well_formed rec3 \<and> well_formed rec4
   \<and> well_formed rec5
   \<and> record_identity rec2 = record_identity rec1 \<and> rec1 \<noteq> rec2
   \<and> lookup_host (snd (monitor_session world_ok ses20 [] [Recv rec1, Recv rec2, Recv rec3, Recv rec4, Recv rec5]))
        ''1.2.3.4'' (PInt 80) = Some rec1
   \<and> lookup_host (snd (monitor_session world_ok ses20 [] [Recv rec1, Recv rec2, Recv rec3, Recv rec4, Recv rec5]))
        ''5.6.7.8'' (PInt 443) = Some rec3
   \<and> lookup_host (snd (monitor_session world_ok ses20 [] [Recv rec1, Recv rec2, Recv rec3, Recv rec4, Recv rec5]))
        ''5.6.7.8'' (PInt 22) = Some rec4
   \<and> lookup_host (snd (monitor_session world_ok ses20 [] [Recv rec1, Recv rec2, Recv rec3, Recv rec4, Recv rec5]))
        ''2001:db8::1'' (PInt 443) = Some rec5"
proof -
  let ?evs = "[Recv rec1, Recv rec2, Recv rec3, Recv rec4, Recv rec5]"
  let ?st = "snd (monitor_session world_ok ses20 [] ?evs)"
  have run: "fst (monitor_session world_ok ses20 [] [Recv rec1, Recv rec2, Recv rec3, Recv rec4]) = Listening"
    by (simp add: run_defs rec1_def rec2_def rec3_def rec4_def)
  have consumed: "?evs = [] \<or> fst (monitor_session world_ok ses20 [] (butlast ?evs)) = Listening"
    using run by simp
  have w: "well_formed rec1" "well_formed rec2" "well_formed rec3" "well_formed rec4"
    "well_formed rec5"
    by (simp_all add: well_formed_def rec1_def rec2_def rec3_def rec4_def rec5_def)
  have wf: "\<forall>b\<in>set (received ?evs). well_formed b" using w by simp
  have ids: "record_identity rec1 = Some (PInt 16909060, PInt 80)"
    "record_identity rec2 = Some (PInt 16909060, PInt 80)"
    "record_identity rec3 = Some (PInt 84281096, PInt 443)"
    "record_identity rec4 = Some (PInt 84281096, PInt 22)"
    "record_identity rec5 = Some (PStr ''2001:db8::1'', PInt 443)"
    by (simp_all add: record_identity_def rec1_def rec2_def rec3_def rec4_def rec5_def)
  have names: "get_ip world_ok rec1 = Some ''1.2.3.4''" "get_ip world_ok rec2 = Some ''1.2.3.4''"
    "get_ip world_ok rec3 = Some ''5.6.7.8''" "get_ip world_ok rec4 = Some ''5.6.7.8''"
    "get_ip world_ok rec5 = Some ''2001:db8::1''"
    by (simp_all add: world_ok_def host_name_def rec1_def rec2_def rec3_def rec4_def rec5_def)
  have ports: "port rec3 = Some (PInt 443)" "port rec4 = Some (PInt 22)"
    by (simp_all add: rec3_def rec4_def)
  have named: "\<forall>b\<in>set (received ?evs). \<forall>b'\<in>set (received ?evs).
        record_identity b \<noteq> None \<and> record_identity b' \<noteq> None
        \<and> get_ip world_ok b \<noteq> None \<and> get_ip world_ok b = get_ip world_ok b' \<and> port b = port b'
          \<longrightarrow> record_identity b = record_identity b'"
    by (simp add: ids names ports)
  have diff: "rec1 \<noteq> rec2" by (simp add: rec1_def rec2_def)
  have fs: "first_seen world_ok (PInt 16909060, PInt 80) (received ?evs) = Some rec1"
    "first_seen world_ok (PInt 84281096, PInt 443) (received ?evs) = Some rec3"
    "first_seen world_ok (PInt 84281096, PInt 22) (received ?evs) = Some rec4"
    "first_seen world_ok (PStr ''2001:db8::1'', PInt 443) (received ?evs) = Some rec5"
    by (simp_all add: first_seen_def ids names)
  from scan_table_first_seen_once [OF consumed wf named]
  have a: "\<forall>b\<in>set (received ?evs). \<forall>i. record_identity b = Some i \<and> get_ip world_ok b \<noteq> None \<longrightarrow>
            (\<exists>b0 h. first_seen world_ok i (received ?evs) = Some b0 \<and> get_ip world_ok b0 = Some h
               \<and> lookup_host ?st h (snd i) = Some b0)"
    by blast
  have "\<exists>b0 h. first_seen world_ok (PInt 16909060, PInt 80) (received ?evs) = Some b0
          \<and> get_ip world_ok b0 = Some h \<and> lookup_host ?st h (snd (PInt 16909060, PInt 80)) = Some b0"
    using a [rule_format, of rec2 "(PInt 16909060, PInt 80)"] ids names by simp
  then have l1: "lookup_host ?st ''1.2.3.4'' (PInt 80) = Some rec1"
    unfolding fs using names by auto
  have "\<exists>b0 h. first_seen world_ok (PInt 84281096, PInt 443) (received ?evs) = Some b0
          \<and> get_ip world_ok b0 = Some h \<and> lookup_host ?st h (snd (PInt 84281096, PInt 443)) = Some b0"
    using a [rule_format, of rec3 "(PInt 84281096, PInt 443)"] ids names by simp
  then have l3: "lookup_host ?st ''5.6.7.8'' (PInt 443) = Some rec3"
    unfolding fs using names by auto
  have "\<exists>b0 h. first_seen world_ok (PInt 84281096, PInt 22) (received ?evs) = Some b0
          \<and> get_ip world_ok b0 = Some h \<and> lookup_host ?st h (snd (PInt 84281096, PInt 22)) = Some b0"
    using a [rule_format, of rec4 "(PInt 84281096, PInt 22)"] ids names by simp
  then have l4: "lookup_host ?st ''5.6.7.8'' (PInt 22) = Some rec4"
    unfolding fs using names by auto
  have "\<exists>b0 h. first_seen world_ok (PStr ''2001:db8::1'', PInt 443) (received ?evs) = Some b0
          \<and> get_ip world_ok b0 = Some h
          \<and> lookup_host ?st h (snd (PStr ''2001:db8::1'', PInt 443)) = Some b0"
    using a [rule_format, of rec5 "(PStr ''2001:db8::1'', PInt 443)"] ids names by simp
  then have l5: "lookup_host ?st ''2001:db8::1'' (PInt 443) = Some rec5"
    unfolding fs using names by auto
  show ?thesis using run w ids diff l1 l3 l4 l5 by simp
qed

text \<open>
  Claim C6 as stated fails. After two banners of one identity, a banner of another ip
  that \<open>get_ip\<close> names like the first replaces the entry, and the first identity has no
  entry left. A banner whose \<open>ip\<close> is 0 is skipped although it has ip and port. A banner
  whose ipv6 text is the decimal form of another banner's ip has the same cache key and
  gets no entry.
\<close>

theorem scan_table_entry_lost:
  "record_identity rec1 = Some (PInt 16909060, PInt 80)
   \<and> record_identity rec_clash = Some (PInt 16909061, PInt 80)
   \<and> get_ip world_ok rec1 = Some ''1.2.3.4'' \<and> get_ip world_ok rec_clash = Some ''1.2.3.4''
   \<and> fst (monitor_session world_ok ses20 [] [Recv rec1, Recv rec2, Recv rec_clash]) = Listening
   \<and> hosts (snd (monitor_session world_ok ses20 [] [Recv rec1, Recv rec2, Recv rec_clash])) =
       [''1.2.3.4'' \<mapsto> [PInt 80 \<mapsto> rec_clash]]
   \<and> rec_clash \<noteq> rec1
   \<and> record_identity rec_zero = Some (PInt 0, PInt 80)
   \<and> monitor_session world_ok ses20 [] [Recv rec_zero] = monitor_session world_ok ses20 [] []
   \<and> record_identity rec_text = Some (PStr ''16909060'', PInt 80)
   \<and> get_ip world_ok rec_text = Some ''16909060''
   \<and> fst (monitor_session world_ok ses20 [] [Recv rec1, Recv rec_text]) = Listening
   \<and> hosts (snd (monitor_session world_ok ses20 [] [Recv rec1, Recv rec_text])) =
       [''1.2.3.4'' \<mapsto> [PInt 80 \<mapsto> rec1]]"
  by (simp add: run_defs record_identity_def rec1_def rec2_def rec_clash_def rec_zero_def rec_text_def)

end
